theory Spec2Isabelle
  imports Complex_Main "HOL-Library.Word" "HOL-Library.Sublist"
begin

section \<open>The stream buffer of \<^verbatim>\<open>stream-buffer.c\<close>\<close>

text \<open>
  The program copies its standard input to its standard output, one byte per tick of
  an interval timer. It is modelled by explicit state passing: the state holds the ring
  buffer, the flag set by the signal handler, \<^verbatim>\<open>errno\<close>, the timer as last armed and the
  two output channels. The environment is a trace of events, one for each return of
  \<^verbatim>\<open>getchar\<close>. Every \<^verbatim>\<open>exit\<close> and every failed \<^verbatim>\<open>assert\<close> is a value of the
  outcome type.
\<close>

subsection \<open>Floating-point arithmetic of the C expressions\<close>

text \<open>
  The source multiplies a \<^verbatim>\<open>long long\<close> by a \<^verbatim>\<open>float\<close> and divides \<^verbatim>\<open>double\<close>s.
  The values are modelled as rationals; every operation and every conversion to a
  floating type rounds its exact result to the nearest number with a significand of \<open>p\<close>
  bits, ties to even. This is IEEE 754 arithmetic in the default rounding mode, with
  \<open>p = 24\<close> for \<^verbatim>\<open>float\<close> and \<open>p = 53\<close> for \<^verbatim>\<open>double\<close>, and with an expression of type
  \<^verbatim>\<open>float\<close> evaluated in \<^verbatim>\<open>float\<close>. The exponent range is not limited: no value of the
  program comes near the overflow or the subnormal range. \<^verbatim>\<open>long long\<close> is an unbounded
  integer here: the source computes no value outside 64 bits from an interval it can
  reach.
\<close>

definition pow2 :: "int \<Rightarrow> rat" where
  "pow2 e = (if 0 \<le> e then 2 ^ nat e else 1 / 2 ^ nat (- e))"

function ilog2 :: "int \<Rightarrow> int" where
  "ilog2 n = (if n < 2 then 0 else 1 + ilog2 (n div 2))"
  by pat_completeness auto
termination
  by (relation "measure nat") auto

declare ilog2.simps [simp del]

text \<open>The exponent of the binade of a positive rational: \<open>2 ^ e \<le> x < 2 ^ (e + 1)\<close>.\<close>

definition floor_log2 :: "rat \<Rightarrow> int" where
  "floor_log2 x =
     (if 1 \<le> x then ilog2 \<lfloor>x\<rfloor>
      else - (1 + ilog2 (\<lceil>1 / x\<rceil> - 1)))"

definition round_half_even :: "rat \<Rightarrow> int" where
  "round_half_even q =
     (let n = \<lfloor>q\<rfloor>; r = q - of_int n
      in if r < 1 / 2 then n else if 1 / 2 < r then n + 1
         else if even n then n else n + 1)"

definition fp_round :: "nat \<Rightarrow> rat \<Rightarrow> rat" where
  "fp_round p x =
     (if x = 0 then 0
      else let u = pow2 (floor_log2 \<bar>x\<bar> - (int p - 1))
           in sgn x * of_int (round_half_even (\<bar>x\<bar> / u)) * u)"

definition to_float :: "rat \<Rightarrow> rat" where
  "to_float x = fp_round 24 x"

definition to_double :: "rat \<Rightarrow> rat" where
  "to_double x = fp_round 53 x"

text \<open>
  Conversion of a floating value to \<^verbatim>\<open>long long\<close> discards the fractional part, towards
  zero.
\<close>

definition ll_of_fp :: "rat \<Rightarrow> int" where
  "ll_of_fp x = (if 0 \<le> x then \<lfloor>x\<rfloor> else \<lceil>x\<rceil>)"

definition float_of_ll :: "int \<Rightarrow> rat" where
  "float_of_ll i = to_float (of_int i)"

definition double_of_ll :: "int \<Rightarrow> rat" where
  "double_of_ll i = to_double (of_int i)"

definition float_mul :: "rat \<Rightarrow> rat \<Rightarrow> rat" where
  "float_mul a b = to_float (a * b)"

definition double_div :: "rat \<Rightarrow> rat \<Rightarrow> rat" where
  "double_div a b = to_double (a / b)"

definition double_add :: "rat \<Rightarrow> rat \<Rightarrow> rat" where
  "double_add a b = to_double (a + b)"

text \<open>
  The two resize factors: the \<^verbatim>\<open>double\<close> constants \<^verbatim>\<open>1.05\<close> and \<^verbatim>\<open>.95\<close>, converted to
  the \<^verbatim>\<open>float\<close> parameter of \<^verbatim>\<open>reset_timer\<close>.
\<close>

definition factor_slow :: rat where
  "factor_slow = to_float (to_double (105 / 100))"

definition factor_fast :: rat where
  "factor_fast = to_float (to_double (95 / 100))"

subsection \<open>State, environment and outcomes\<close>

type_synonym byte = "8 word"

text \<open>What \<^verbatim>\<open>fstat\<close> finds on the standard input; a failure carries the system's message.\<close>

datatype source_kind = Regular | Live | Stat_failed string

record state =
  rb :: "byte list"
  received_signal :: bool
  errno :: int
  timer :: "int \<times> int"
  stdout :: "byte list"
  stderr :: string
  stdin_kind :: source_kind
  sigaction_error :: "string option"

text \<open>
  One return of \<^verbatim>\<open>getchar\<close>: a byte, \<^verbatim>\<open>EOF\<close> because the read was interrupted by a
  signal (\<^verbatim>\<open>errno\<close> becomes \<^verbatim>\<open>EINTR\<close>), or \<^verbatim>\<open>EOF\<close> at the end of the input. The boolean
  tells whether the handler of \<^verbatim>\<open>SIGALRM\<close> ran since the flag was last looked at.
\<close>

datatype getchar_result = Got byte | Intr | End_of_input

type_synonym event = "getchar_result \<times> bool"

text \<open>
  A function returns a value and a state, leaves through \<^verbatim>\<open>exit\<close> with a status, is
  aborted by a failed \<^verbatim>\<open>assert\<close>, or is still blocked in \<^verbatim>\<open>getchar\<close> when the trace ends.
\<close>

datatype 'a outcome = Return 'a state | Exit int state | Abort state | Blocked state

text \<open>Sequencing: the next step runs on a returned value, any other outcome ends the run.\<close>

fun obind :: "'a outcome \<Rightarrow> ('a \<Rightarrow> state \<Rightarrow> 'b outcome) \<Rightarrow> 'b outcome" where
  "obind (Return x st) f = f x st"
| "obind (Exit status st) f = Exit status st"
| "obind (Abort st) f = Abort st"
| "obind (Blocked st) f = Blocked st"

definition EINTR :: int where
  "EINTR = 4"

definition newline :: string where
  "newline = [CHR 0x0A]"

definition fputs :: "string \<Rightarrow> state \<Rightarrow> state" where
  "fputs s st = st\<lparr>stderr := stderr st @ s\<rparr>"

definition perror :: "string \<Rightarrow> string \<Rightarrow> state \<Rightarrow> state" where
  "perror name text st = fputs (name @ '': '' @ text @ newline) st"

definition putchar :: "byte \<Rightarrow> state \<Rightarrow> state" where
  "putchar c st = st\<lparr>stdout := stdout st @ [c]\<rparr>"

definition getchar :: "event \<Rightarrow> state \<Rightarrow> byte option \<times> state" where
  "getchar ev st =
     (let st1 = (if snd ev then st\<lparr>received_signal := True\<rparr> else st)
      in case fst ev of
           Got b \<Rightarrow> (Some b, st1)
         | Intr \<Rightarrow> (None, st1\<lparr>errno := EINTR\<rparr>)
         | End_of_input \<Rightarrow> (None, st1))"

subsection \<open>The ring buffer\<close>

text \<open>
  \<^verbatim>\<open>ring-buffer.h\<close> and its functions are not among the sources; the three that the
  program calls follow the spec's description of the queue: a FIFO of unbounded capacity,
  held in the state as the list of the bytes not yet emitted, oldest first.
\<close>

text \<open>
  Modelled from the spec: \<^verbatim>\<open>rb_create\<close> is missing. The queue starts empty.
\<close>

definition rb_create :: "state \<Rightarrow> state" where
  "rb_create st = st\<lparr>rb := []\<rparr>"

text \<open>
  Modelled from the spec: \<^verbatim>\<open>rb_xpush\<close> is missing. Push appends to the tail, growing the
  storage as needed; it never fails for capacity and never discards data.
\<close>

definition rb_xpush :: "byte \<Rightarrow> state \<Rightarrow> state" where
  "rb_xpush c st = st\<lparr>rb := rb st @ [c]\<rparr>"

text \<open>
  Modelled from the spec: \<^verbatim>\<open>rb_pop\<close> is missing. Pop removes and returns the head element,
  or the marker for empty (\<^verbatim>\<open>EOF\<close> in the callers, \<open>None\<close> here) when there is none.
\<close>

definition rb_pop :: "state \<Rightarrow> byte option \<times> state" where
  "rb_pop st = (case rb st of [] \<Rightarrow> (None, st) | x # xs \<Rightarrow> (Some x, st\<lparr>rb := xs\<rparr>))"

subsection \<open>The timer\<close>

text \<open>\<^verbatim>\<open>set_timer\<close> passes the two values to \<^verbatim>\<open>setitimer\<close>; the state records them.\<close>

definition set_timer :: "int \<Rightarrow> int \<Rightarrow> state \<Rightarrow> state" where
  "set_timer value_usec interval_usec st = st\<lparr>timer := (value_usec, interval_usec)\<rparr>"

definition is_regular :: "string \<Rightarrow> state \<Rightarrow> bool outcome" where
  "is_regular name st =
     (case stdin_kind st of
        Stat_failed text \<Rightarrow> Exit 1 (perror name text st)
      | Regular \<Rightarrow> Return True st
      | Live \<Rightarrow> Return False st)"

definition reset_timer :: "int \<Rightarrow> rat \<Rightarrow> state \<Rightarrow> int outcome" where
  "reset_timer interval resize_factor st =
     obind (is_regular ''stdin'' st) (\<lambda>regular st1.
       if regular then Return interval st1
       else
         let new_interval = ll_of_fp (float_mul (float_of_ll interval) resize_factor)
         in if new_interval < 10
            then Exit 1 (fputs (''maximum output rate is 100KB/sec'' @ newline) st1)
            else if double_of_ll new_interval > 1000000
            then Exit 1 (fputs (''minimum output rate is 1B/sec'' @ newline) st1)
            else Return new_interval (set_timer new_interval new_interval st1))"

definition set_handler :: "state \<Rightarrow> unit outcome" where
  "set_handler st =
     (case sigaction_error st of
        Some text \<Rightarrow> Exit 1 (perror ''sigaction'' text st)
      | None \<Rightarrow> Return () st)"

subsection \<open>The command-line argument\<close>

text \<open>
  \<^verbatim>\<open>strtoll\<close> of the C library, called with base 0: white space is skipped, a sign is
  optional, the prefix \<^verbatim>\<open>0x\<close> selects base 16 and a leading \<^verbatim>\<open>0\<close> base 8, the longest run
  of digits is converted and a value out of range is clamped. The result is the value
  and the rest of the string, which \<^verbatim>\<open>end\<close> points to; with no digits the value is 0 and
  the rest is the whole string.
\<close>

definition LLONG_MAX :: int where
  "LLONG_MAX = 2 ^ 63 - 1"

definition LLONG_MIN :: int where
  "LLONG_MIN = - (2 ^ 63)"

definition isspace :: "char \<Rightarrow> bool" where
  "isspace c = (c = CHR '' '' \<or> (9 \<le> (of_char c :: nat) \<and> (of_char c :: nat) \<le> 13))"

definition digit_value :: "char \<Rightarrow> nat option" where
  "digit_value c =
     (let n = (of_char c :: nat)
      in if 48 \<le> n \<and> n \<le> 57 then Some (n - 48)
         else if 97 \<le> n \<and> n \<le> 122 then Some (n - 87)
         else if 65 \<le> n \<and> n \<le> 90 then Some (n - 55)
         else None)"

definition is_digit :: "nat \<Rightarrow> char \<Rightarrow> bool" where
  "is_digit base c = (case digit_value c of Some d \<Rightarrow> d < base | None \<Rightarrow> False)"

fun digits_value :: "nat \<Rightarrow> int \<Rightarrow> string \<Rightarrow> int" where
  "digits_value base acc [] = acc"
| "digits_value base acc (c # cs) =
     (case digit_value c of
        Some d \<Rightarrow> digits_value base (acc * int base + int d) cs
      | None \<Rightarrow> acc)"

definition convert_digits :: "nat \<Rightarrow> bool \<Rightarrow> string \<Rightarrow> int \<times> string" where
  "convert_digits base negative s =
     (let ds = takeWhile (is_digit base) s;
          v = digits_value base 0 ds;
          v' = (if negative then - v else v)
      in (max LLONG_MIN (min LLONG_MAX v'), dropWhile (is_digit base) s))"

definition strtoll :: "string \<Rightarrow> int \<times> string" where
  "strtoll s =
     (let s1 = dropWhile isspace s;
          negative = (s1 \<noteq> [] \<and> hd s1 = CHR ''-'');
          s2 = (if s1 \<noteq> [] \<and> (hd s1 = CHR ''-'' \<or> hd s1 = CHR ''+'') then tl s1 else s1)
      in case s2 of
           c0 # cx # c # cs \<Rightarrow>
             if c0 = CHR ''0'' \<and> (cx = CHR ''x'' \<or> cx = CHR ''X'') \<and> is_digit 16 c
             then convert_digits 16 negative (c # cs)
             else if c0 = CHR ''0'' then convert_digits 8 negative s2
             else if is_digit 10 c0 then convert_digits 10 negative s2
             else (0, s)
         | c0 # cs \<Rightarrow>
             if c0 = CHR ''0'' then convert_digits 8 negative s2
             else if is_digit 10 c0 then convert_digits 10 negative s2
             else (0, s)
         | [] \<Rightarrow> (0, s))"

definition msg :: "string list" where
  "msg =
     [''If given, the first argument must be an integer greater than 0'',
      ''and less than 1e6 which specifies the number of microseconds '',
      ''between bytes of output.'']"

definition parse_argument_for_interval :: "string \<Rightarrow> state \<Rightarrow> int \<times> state" where
  "parse_argument_for_interval arg st =
     (let (rv, rest) = strtoll arg
      in if rv < 0 \<or> rv > 999999 \<or> rest \<noteq> []
         then (rv, fold (\<lambda>m s. fputs newline (fputs m s)) msg
                     (fputs ''Invalid argument.  '' st))
         else (rv, st))"

subsection \<open>Estimating the input rate\<close>

text \<open>
  The reading loop of \<^verbatim>\<open>estimate_input_rate\<close>: it counts and buffers the bytes read
  until \<^verbatim>\<open>getchar\<close> returns \<^verbatim>\<open>EOF\<close>, and gives back the count and the events not yet
  consumed. \<^verbatim>\<open>bytes_read\<close> is a \<^verbatim>\<open>size_t\<close>, of 64 bits.
\<close>

fun estimate_loop :: "event list \<Rightarrow> 64 word \<Rightarrow> state \<Rightarrow> (64 word \<times> event list) outcome" where
  "estimate_loop [] bytes_read st = Blocked st"
| "estimate_loop (ev # evs) bytes_read st =
     (case getchar ev st of
        (Some c, st1) \<Rightarrow> estimate_loop evs (bytes_read + 1) (rb_xpush c st1)
      | (None, st1) \<Rightarrow> Return (bytes_read, evs) st1)"

definition double_of_size_t :: "64 word \<Rightarrow> rat" where
  "double_of_size_t n = to_double (of_int (uint n))"

definition estimate_input_rate :: "event list \<Rightarrow> state \<Rightarrow> (int \<times> event list) outcome" where
  "estimate_input_rate evs st =
     (case evs of
        [] \<Rightarrow> Blocked st
      | ev # evs1 \<Rightarrow>
          let (c, st1) = getchar ev st;
              st2 = (case c of Some b \<Rightarrow> rb_xpush b st1 | None \<Rightarrow> st1);
              st3 = set_timer 999999 0 st2;
              st4 = st3\<lparr>errno := 0\<rparr>
          in obind (estimate_loop evs1 0 st4) (\<lambda>(bytes_read, rest) st5.
               if \<not> received_signal st5 \<or> bytes_read < 1
               then Exit 1 (fputs (''not enough input to estimate data rate'' @ newline) st5)
               else if \<not> (bytes_read > 0 \<or> errno st5 = EINTR) then Abort st5
               else
                 let st6 = st5\<lparr>received_signal := False\<rparr>
                 in if bytes_read > 999999
                    then Exit 1 (fputs (''input data rate is too high'' @ newline) st6)
                    else Return (ll_of_fp (double_div 1000000 (double_of_size_t bytes_read)), rest)
                           st6))"

subsection \<open>Reading ahead for a given interval\<close>

fun read_loop :: "int \<Rightarrow> event list \<Rightarrow> state \<Rightarrow> (event list) outcome" where
  "read_loop count [] st = (if count > 0 then Blocked st else Return [] st)"
| "read_loop count (ev # evs) st =
     (if count > 0
      then (case getchar ev st of
              (Some c, st1) \<Rightarrow> read_loop (count - 1) evs (rb_xpush c st1)
            | (None, st1) \<Rightarrow> Return evs st1)
      else Return (ev # evs) st)"

text \<open>
  The two assertions are tested before the loop; the model tests them before it
  computes \<^verbatim>\<open>count\<close>, whose value is used by the loop only.
\<close>

definition read_one_second :: "int \<Rightarrow> event list \<Rightarrow> state \<Rightarrow> (event list) outcome" where
  "read_one_second interval evs st =
     (if \<not> interval > 0 then Abort st
      else if \<not> double_of_ll interval < 1000000 then Abort st
      else
        let count = ll_of_fp (double_add (double_div 1000000 (double_of_ll interval)) 1)
        in read_loop count evs st)"

subsection \<open>Streaming\<close>

definition DELAY_SIZE :: int where
  "DELAY_SIZE = 1024"

text \<open>
  The first block of the loop body: when the handler has run, one byte is popped and
  written, or the timer is slowed down when the buffer is empty.
\<close>

definition service_signal :: "int \<Rightarrow> int \<Rightarrow> state \<Rightarrow> (int \<times> int) outcome" where
  "service_signal interval bytes_buffered st =
     (if received_signal st
      then
        let bytes_buffered1 = bytes_buffered - 1
        in obind
             (case rb_pop st of
                (None, st1) \<Rightarrow> reset_timer interval factor_slow st1
              | (Some d, st1) \<Rightarrow> Return interval (putchar d st1))
             (\<lambda>interval1 st2.
                Return (interval1, bytes_buffered1) (st2\<lparr>received_signal := False, errno := 0\<rparr>))
      else Return (interval, bytes_buffered) st)"

text \<open>The second block: a byte that was read is counted and buffered.\<close>

definition buffer_byte :: "byte option \<Rightarrow> int \<Rightarrow> state \<Rightarrow> int \<times> state" where
  "buffer_byte c bytes_buffered st =
     (case c of
        Some b \<Rightarrow> (bytes_buffered + 1, rb_xpush b st)
      | None \<Rightarrow> (bytes_buffered, st))"

text \<open>
  The last two blocks: the timer is made faster when the count has passed
  \<^verbatim>\<open>DELAY_SIZE\<close>, slower when it has passed \<^verbatim>\<open>-DELAY_SIZE\<close>, and the count starts again.
\<close>

definition adjust_rate :: "int \<Rightarrow> int \<Rightarrow> state \<Rightarrow> (int \<times> int) outcome" where
  "adjust_rate interval bytes_buffered st =
     obind
       (if bytes_buffered > DELAY_SIZE
        then obind (reset_timer interval factor_fast st) (\<lambda>interval1 st1.
               Return (interval1, 0) st1)
        else Return (interval, bytes_buffered) st)
       (\<lambda>(interval2, bytes_buffered2) st2.
          if bytes_buffered2 < - DELAY_SIZE
          then obind (reset_timer interval2 factor_slow st2) (\<lambda>interval3 st3.
                 Return (interval3, 0) st3)
          else Return (interval2, bytes_buffered2) st2)"

text \<open>The body of the loop of \<^verbatim>\<open>stream_data\<close>, for the value \<open>c\<close> that \<^verbatim>\<open>getchar\<close> returned.\<close>

definition stream_body :: "byte option \<Rightarrow> int \<Rightarrow> int \<Rightarrow> state \<Rightarrow> (int \<times> int) outcome" where
  "stream_body c interval bytes_buffered st =
     obind (service_signal interval bytes_buffered st) (\<lambda>(interval1, bytes_buffered1) st1.
       let (bytes_buffered2, st2) = buffer_byte c bytes_buffered1 st1
       in adjust_rate interval1 bytes_buffered2 st2)"

text \<open>
  The last loop: \<^verbatim>\<open>pause\<close> returns when the handler has run, always with \<^verbatim>\<open>-1\<close> and
  \<^verbatim>\<open>errno = EINTR\<close>; each return pops one byte, and the loop ends on the empty buffer.
  The loop is described for a timer that keeps expiring, which is the case when
  \<^verbatim>\<open>setitimer\<close> has accepted the interval.
\<close>

function drain :: "state \<Rightarrow> state" where
  "drain st =
     (case rb_pop (st\<lparr>received_signal := True, errno := EINTR\<rparr>) of
        (None, st1) \<Rightarrow> st1
      | (Some c, st1) \<Rightarrow> drain (putchar c st1))"
  by pat_completeness auto
termination
  by (relation "measure (\<lambda>st. length (rb st))")
     (auto simp: rb_pop_def putchar_def split: list.splits)

declare drain.simps [simp del]

fun stream_loop :: "event list \<Rightarrow> int \<Rightarrow> int \<Rightarrow> state \<Rightarrow> unit outcome" where
  "stream_loop [] interval bytes_buffered st = Blocked st"
| "stream_loop (ev # evs) interval bytes_buffered st =
     (case getchar ev st of
        (c, st1) \<Rightarrow>
          if c \<noteq> None \<or> errno st1 = EINTR
          then obind (stream_body c interval bytes_buffered st1)
                 (\<lambda>(interval1, bytes_buffered1) st2. stream_loop evs interval1 bytes_buffered1 st2)
          else Return () (drain (st1\<lparr>errno := 0\<rparr>)))"

definition stream_data :: "int \<Rightarrow> event list \<Rightarrow> state \<Rightarrow> unit outcome" where
  "stream_data interval evs st =
     stream_loop evs interval 0 ((set_timer interval interval st)\<lparr>errno := 0\<rparr>)"

subsection \<open>The program\<close>

text \<open>
  \<open>args\<close> are the command-line arguments after the program's name, \<open>evs\<close> the returns of
  \<^verbatim>\<open>getchar\<close> in the order of the calls.
\<close>

definition main :: "string list \<Rightarrow> event list \<Rightarrow> state \<Rightarrow> unit outcome" where
  "main args evs st =
     obind (set_handler (rb_create st)) (\<lambda>_ st1.
       obind
         (case args of
            arg # _ \<Rightarrow>
              let (interval, st2) = parse_argument_for_interval arg st1
              in obind (read_one_second interval evs st2) (\<lambda>rest st3.
                   stream_data interval rest st3)
          | [] \<Rightarrow>
              obind (is_regular ''stdin'' st1) (\<lambda>regular st2.
                if regular
                then Exit 1 (fputs (''a regular file!!'' @ newline)
                       (fputs ''Interval *must* be given if reading from '' st2))
                else obind (estimate_input_rate evs st2) (\<lambda>(interval, rest) st3.
                       stream_data interval rest st3)))
         (\<lambda>_ st4. Exit 0 st4))"

text \<open>The state at the start of the program, for a kind of standard input.\<close>

definition initial_state :: "source_kind \<Rightarrow> state" where
  "initial_state kind =
     \<lparr>rb = [], received_signal = False, errno = 0, timer = (0, 0), stdout = [],
      stderr = [], stdin_kind = kind, sigaction_error = None\<rparr>"

text \<open>The bytes that a trace delivers.\<close>

fun bytes_of :: "event list \<Rightarrow> byte list" where
  "bytes_of [] = []"
| "bytes_of ((Got b, t) # evs) = b # bytes_of evs"
| "bytes_of ((Intr, t) # evs) = bytes_of evs"
| "bytes_of ((End_of_input, t) # evs) = bytes_of evs"

text \<open>
  The end of the input is final: once \<^verbatim>\<open>getchar\<close> has returned \<^verbatim>\<open>EOF\<close> at the end of the
  input, no later call delivers a byte.
\<close>

fun eof_sticky :: "event list \<Rightarrow> bool" where
  "eof_sticky [] = True"
| "eof_sticky ((End_of_input, t) # evs) = (bytes_of evs = [])"
| "eof_sticky ((Got b, t) # evs) = eof_sticky evs"
| "eof_sticky ((Intr, t) # evs) = eof_sticky evs"

text \<open>
  A trace on which the estimator runs to its decision: the event \<open>ev0\<close> of the first call of
  \<^verbatim>\<open>getchar\<close>, the bytes \<open>bs\<close> read while the timer runs, each with its flag, and the event
  \<open>eof\<close> of the call that returns \<^verbatim>\<open>EOF\<close>; \<open>rest\<close> is left for the calls after it. The
  window has expired when the handler has run by the end of the loop.
\<close>

definition window_trace :: "event \<Rightarrow> (byte \<times> bool) list \<Rightarrow> event \<Rightarrow> event list \<Rightarrow> event list" where
  "window_trace ev0 bs eof rest = ev0 # map (\<lambda>(b, t). (Got b, t)) bs @ eof # rest"

definition is_eof :: "event \<Rightarrow> bool" where
  "is_eof ev = (fst ev = Intr \<or> fst ev = End_of_input)"

definition window_expired :: "state \<Rightarrow> event \<Rightarrow> (byte \<times> bool) list \<Rightarrow> event \<Rightarrow> bool" where
  "window_expired st ev0 bs eof =
     (received_signal st \<or> snd ev0 \<or> list_ex snd bs \<or> snd eof)"

text \<open>The state in which a run ended, whatever the outcome.\<close>

fun final_state :: "'a outcome \<Rightarrow> state" where
  "final_state (Return x st) = st"
| "final_state (Exit status st) = st"
| "final_state (Abort st) = st"
| "final_state (Blocked st) = st"

text \<open>The status of a run that ended through \<^verbatim>\<open>exit\<close>.\<close>

fun exit_status :: "'a outcome \<Rightarrow> int option" where
  "exit_status (Exit status st) = Some status"
| "exit_status (Return x st) = None"
| "exit_status (Abort st) = None"
| "exit_status (Blocked st) = None"

text \<open>
  A trace on which the streaming loop comes to its end: bytes and reads interrupted by
  the handler, then the end of the input, after which every call of \<^verbatim>\<open>getchar\<close> returns
  \<^verbatim>\<open>EOF\<close> at once.
\<close>

fun finishing :: "event list \<Rightarrow> bool" where
  "finishing [] = False"
| "finishing ((Got b, t) # evs) = finishing evs"
| "finishing ((Intr, t) # evs) = (t \<and> finishing evs)"
| "finishing ((End_of_input, t) # evs) = list_all (\<lambda>ev. fst ev = End_of_input) evs"

text \<open>
  A complete trace of a run: as above, with the end of the input returned to at least two
  calls, one for the loop that reads ahead and one for the streaming loop.
\<close>

fun complete :: "event list \<Rightarrow> bool" where
  "complete [] = False"
| "complete ((Got b, t) # evs) = complete evs"
| "complete ((Intr, t) # evs) = (t \<and> complete evs)"
| "complete ((End_of_input, t) # evs) = (evs \<noteq> [] \<and> list_all (\<lambda>ev. fst ev = End_of_input) evs)"

text \<open>
  \<^verbatim>\<open>setitimer\<close> takes a \<^verbatim>\<open>tv_usec\<close> from 0 to 999999 and refuses any other with \<^verbatim>\<open>EINVAL\<close>,
  leaving the timer of the process as it was. \<^verbatim>\<open>set_timer\<close> does not look at the result.
\<close>

definition setitimer_accepts :: "int \<times> int \<Rightarrow> bool" where
  "setitimer_accepts t = (0 \<le> fst t \<and> fst t \<le> 999999 \<and> 0 \<le> snd t \<and> snd t \<le> 999999)"

section \<open>Properties of the rounding\<close>

lemma pow2_powi: "pow2 e = 2 powi e"
  by (simp add: pow2_def power_int_def field_simps)

lemma pow2_pos: "0 < pow2 e"
  by (simp add: pow2_powi)

lemma pow2_add: "pow2 (a + b) = pow2 a * pow2 b"
  by (simp add: pow2_powi power_int_add)

lemma pow2_of_nat: "pow2 (int n) = 2 ^ n"
  by (simp add: pow2_def)

lemma pow2_mono: "a \<le> b \<Longrightarrow> pow2 a \<le> pow2 b"
  by (simp add: pow2_powi power_int_increasing)

lemma pow2_less_cancel: "pow2 a < pow2 b \<Longrightarrow> a < b"
  using pow2_mono [of b a] by (cases "a < b") auto

lemma ilog2_bounds:
  "0 < n \<Longrightarrow> 0 \<le> ilog2 n \<and> 2 ^ nat (ilog2 n) \<le> n \<and> n < 2 * 2 ^ nat (ilog2 n)"
proof (induction n rule: ilog2.induct)
  case (1 n)
  show ?case
  proof (cases "n < 2")
    case True
    with 1(2) show ?thesis by (simp add: ilog2.simps [of n])
  next
    case False
    then have pos: "0 < n div 2" by simp
    from 1(1) [OF False pos]
    have ih: "0 \<le> ilog2 (n div 2)" "2 ^ nat (ilog2 (n div 2)) \<le> n div 2"
      "n div 2 < 2 * 2 ^ nat (ilog2 (n div 2))" by simp_all
    have eq: "ilog2 n = 1 + ilog2 (n div 2)" using False by (simp add: ilog2.simps [of n])
    have nat_eq: "nat (1 + ilog2 (n div 2)) = Suc (nat (ilog2 (n div 2)))"
      using ih(1) by simp
    from ih show ?thesis unfolding eq nat_eq by simp linarith
  qed
qed

lemma floor_log2_bounds:
  assumes "0 < x"
  shows "pow2 (floor_log2 x) \<le> x \<and> x < pow2 (floor_log2 x + 1)"
proof (cases "1 \<le> x")
  case True
  define n where "n = \<lfloor>x\<rfloor>"
  have npos: "0 < n" using True by (simp add: n_def)
  have fl: "floor_log2 x = ilog2 n" using True by (simp add: floor_log2_def n_def)
  define k where "k = nat (ilog2 n)"
  from ilog2_bounds [OF npos] have kn: "ilog2 n = int k" and b: "2 ^ k \<le> n" "n < 2 * 2 ^ k"
    by (simp_all add: k_def)
  have nx: "of_int n \<le> x" "x < of_int n + 1"
    unfolding n_def by linarith+
  have "(of_int (2 ^ k) :: rat) \<le> of_int n" using b(1) by (simp only: of_int_le_iff)
  then have "(2::rat) ^ k \<le> of_int n" by simp
  then have lo: "pow2 (int k) \<le> x" unfolding pow2_of_nat using nx(1) by (rule order_trans)
  have "n + 1 \<le> 2 * 2 ^ k" using b(2) by simp
  then have "(of_int (n + 1) :: rat) \<le> of_int (2 * 2 ^ k)" by (simp only: of_int_le_iff)
  then have "(of_int n :: rat) + 1 \<le> 2 * 2 ^ k" by simp
  moreover have "pow2 (int k + 1) = 2 * 2 ^ k"
    by (simp only: pow2_add pow2_of_nat) (simp add: pow2_def)
  ultimately have hi: "x < pow2 (int k + 1)" using nx(2) by linarith
  from lo hi show ?thesis by (simp add: fl kn)
next
  case False
  define y where "y = 1 / x"
  have y1: "1 < y" using False assms by (simp add: y_def)
  define m where "m = \<lceil>y\<rceil> - 1"
  have c2: "2 \<le> \<lceil>y\<rceil>" using y1 by linarith
  have mpos: "0 < m" using c2 by (simp add: m_def)
  have fl: "floor_log2 x = - (1 + ilog2 m)" using False by (simp add: floor_log2_def m_def y_def)
  define k where "k = nat (ilog2 m)"
  from ilog2_bounds [OF mpos] have km: "ilog2 m = int k" and b: "2 ^ k \<le> m" "m < 2 * 2 ^ k"
    by (simp_all add: k_def)
  have my: "of_int m < y" "y \<le> of_int m + 1"
    unfolding m_def by (simp_all) linarith+
  have "(of_int (2 ^ k) :: rat) \<le> of_int m" using b(1) by (simp only: of_int_le_iff)
  then have "(2::rat) ^ k \<le> of_int m" by simp
  then have "(2::rat) ^ k < y" using my(1) by (rule le_less_trans)
  then have A: "2 ^ k < 1 / x" by (simp add: y_def)
  have "m + 1 \<le> 2 * 2 ^ k" using b(2) by simp
  then have "(of_int (m + 1) :: rat) \<le> of_int (2 * 2 ^ k)" by (simp only: of_int_le_iff)
  then have "(of_int m :: rat) + 1 \<le> 2 * 2 ^ k" by simp
  then have B: "1 / x \<le> 2 * 2 ^ k" using my(2) by (simp add: y_def)
  have e1: "pow2 (- (1 + int k)) = 1 / (2 * 2 ^ k)"
    by (simp add: pow2_def nat_add_distrib)
  have e2: "pow2 (- (1 + int k) + 1) = 1 / 2 ^ k"
    by (simp add: pow2_def)
  have lo: "pow2 (- (1 + int k)) \<le> x"
    unfolding e1 using B assms by (simp add: field_simps)
  have hi: "x < pow2 (- (1 + int k) + 1)"
    unfolding e2 using A assms by (simp add: field_simps)
  from lo hi show ?thesis by (simp add: fl km)
qed

lemma floor_log2_unique:
  assumes "pow2 e \<le> x" "x < pow2 (e + 1)"
  shows "floor_log2 x = e"
proof -
  have xpos: "0 < x" using assms(1) pow2_pos [of e] by linarith
  from floor_log2_bounds [OF xpos]
  have b: "pow2 (floor_log2 x) \<le> x" "x < pow2 (floor_log2 x + 1)" by simp_all
  have "pow2 e < pow2 (floor_log2 x + 1)" using assms(1) b(2) by linarith
  then have 1: "e < floor_log2 x + 1" by (rule pow2_less_cancel)
  have "pow2 (floor_log2 x) < pow2 (e + 1)" using assms(2) b(1) by linarith
  then have 2: "floor_log2 x < e + 1" by (rule pow2_less_cancel)
  from 1 2 show ?thesis by linarith
qed

lemma round_half_even_ge: "of_int z \<le> q \<Longrightarrow> z \<le> round_half_even q"
proof -
  assume "of_int z \<le> q"
  then have "z \<le> \<lfloor>q\<rfloor>" by (simp add: le_floor_iff)
  then show ?thesis by (simp add: round_half_even_def Let_def)
qed

lemma round_half_even_le: "q \<le> of_int z \<Longrightarrow> round_half_even q \<le> z"
proof -
  assume a: "q \<le> of_int z"
  show ?thesis
  proof (cases "q = of_int \<lfloor>q\<rfloor>")
    case True
    then have "round_half_even q = \<lfloor>q\<rfloor>" by (simp add: round_half_even_def Let_def)
    moreover have "\<lfloor>q\<rfloor> \<le> z" using a by (simp add: floor_le_iff)
    ultimately show ?thesis by simp
  next
    case False
    moreover have "of_int \<lfloor>q\<rfloor> \<le> q" by (rule of_int_floor_le)
    ultimately have "of_int \<lfloor>q\<rfloor> < q" by (metis order.strict_iff_order)
    then have "of_int \<lfloor>q\<rfloor> < (of_int z :: rat)" using a by linarith
    then have "\<lfloor>q\<rfloor> < z" by simp
    then show ?thesis by (simp add: round_half_even_def Let_def)
  qed
qed

lemma fp_round_pos: "0 < x \<Longrightarrow>
  fp_round p x = of_int (round_half_even (x / pow2 (floor_log2 x - (int p - 1)))) *
                 pow2 (floor_log2 x - (int p - 1))"
  by (simp add: fp_round_def Let_def)

lemma fp_round_ge_multiple:
  assumes "0 < x" "of_int z * pow2 (floor_log2 x - (int p - 1)) \<le> x"
  shows "of_int z * pow2 (floor_log2 x - (int p - 1)) \<le> fp_round p x"
proof -
  let ?u = "pow2 (floor_log2 x - (int p - 1))"
  have u: "0 < ?u" by (rule pow2_pos)
  have "of_int z \<le> x / ?u" using assms(2) u by (simp add: pos_le_divide_eq)
  then have "z \<le> round_half_even (x / ?u)" by (rule round_half_even_ge)
  then have "(of_int z :: rat) \<le> of_int (round_half_even (x / ?u))" by simp
  then show ?thesis using u by (simp add: fp_round_pos [OF assms(1)])
qed

lemma fp_round_le_multiple:
  assumes "0 < x" "x \<le> of_int z * pow2 (floor_log2 x - (int p - 1))"
  shows "fp_round p x \<le> of_int z * pow2 (floor_log2 x - (int p - 1))"
proof -
  let ?u = "pow2 (floor_log2 x - (int p - 1))"
  have u: "0 < ?u" by (rule pow2_pos)
  have "x / ?u \<le> of_int z" using assms(2) u by (simp add: pos_divide_le_eq)
  then have "round_half_even (x / ?u) \<le> z" by (rule round_half_even_le)
  then have "(of_int (round_half_even (x / ?u)) :: rat) \<le> of_int z" by simp
  then show ?thesis using u by (simp add: fp_round_pos [OF assms(1)])
qed

lemma multiple_of_pow2:
  assumes "e \<le> j"
  shows "of_int m * pow2 j = of_int (m * 2 ^ nat (j - e)) * pow2 e"
proof -
  have "pow2 j = pow2 ((j - e) + e)" by simp
  also have "\<dots> = pow2 (j - e) * pow2 e" by (rule pow2_add)
  also have "pow2 (j - e) = 2 ^ nat (j - e)" using assms by (simp add: pow2_def)
  finally show ?thesis by simp
qed

text \<open>Rounding is monotone against every representable number.\<close>

lemma fp_round_le_repr:
  assumes "0 < x" "x \<le> of_int m * pow2 j" "m < 2 ^ p"
  shows "fp_round p x \<le> of_int m * pow2 j"
proof -
  let ?f = "floor_log2 x"
  let ?e = "?f - (int p - 1)"
  have "pow2 ?f \<le> x" using floor_log2_bounds [OF assms(1)] by simp
  also have "x \<le> of_int m * pow2 j" by fact
  also have "of_int m * pow2 j < 2 ^ p * pow2 j"
  proof -
    have "(of_int m :: rat) < of_int (2 ^ p)" using assms(3) by (simp only: of_int_less_iff)
    then show ?thesis using pow2_pos [of j] by simp
  qed
  also have "2 ^ p * pow2 j = pow2 (int p + j)" by (simp add: pow2_add pow2_of_nat)
  finally have "?f < int p + j" by (rule pow2_less_cancel)
  then have ej: "?e \<le> j" by linarith
  show ?thesis
    using fp_round_le_multiple [OF assms(1), of "m * 2 ^ nat (j - ?e)" p] assms(2)
    unfolding multiple_of_pow2 [OF ej, of m] by simp
qed

lemma fp_round_ge_repr:
  assumes "0 < x" "of_int m * pow2 j \<le> x" "m < 2 ^ p"
  shows "of_int m * pow2 j \<le> fp_round p x"
proof -
  let ?f = "floor_log2 x"
  let ?e = "?f - (int p - 1)"
  consider "m \<le> 0" | "0 < m" "?e \<le> j" | "0 < m" "\<not> ?e \<le> j" by linarith
  then show ?thesis
  proof cases
    case 1
    have "of_int m * pow2 j \<le> 0" using 1 pow2_pos [of j] by (simp add: mult_le_0_iff)
    moreover have "0 \<le> fp_round p x"
      using fp_round_ge_multiple [OF assms(1), of 0 p] assms(1) by simp
    ultimately show ?thesis by linarith
  next
    case 2
    show ?thesis
      using fp_round_ge_multiple [OF assms(1), of "m * 2 ^ nat (j - ?e)" p] assms(2)
      unfolding multiple_of_pow2 [OF 2(2), of m] by simp
  next
    case 3
    then have False: "\<not> ?e \<le> j" by simp
    have fx: "pow2 ?f \<le> x" using floor_log2_bounds [OF assms(1)] by simp
    have "0 < p"
    proof (rule ccontr)
      assume "\<not> 0 < p"
      then have "p = 0" by simp
      with assms(3) 3(1) show False by simp
    qed
    have feq: "pow2 ?f = of_int (2 ^ (p - 1)) * pow2 ?e"
    proof -
      have "pow2 ?f = pow2 (int (p - 1) + ?e)" using \<open>0 < p\<close> by (simp add: of_nat_diff)
      then show ?thesis by (simp add: pow2_add pow2_of_nat)
    qed
    have "pow2 ?f \<le> fp_round p x"
      using fp_round_ge_multiple [OF assms(1), of "2 ^ (p - 1)" p] fx unfolding feq by simp
    moreover have "of_int m * pow2 j \<le> pow2 ?f"
    proof -
      have "(of_int m :: rat) \<le> of_int (2 ^ p)" using assms(3) by (simp only: of_int_le_iff)
      then have "of_int m * pow2 j \<le> 2 ^ p * pow2 j" using pow2_pos [of j] by simp
      also have "2 ^ p * pow2 j = pow2 (int p + j)" by (simp add: pow2_add pow2_of_nat)
      also have "\<dots> \<le> pow2 ?f" using False by (intro pow2_mono) linarith
      finally show ?thesis .
    qed
    ultimately show ?thesis by linarith
  qed
qed

lemma fp_round_exact:
  assumes "0 < x" "x = of_int m * pow2 j" "m < 2 ^ p"
  shows "fp_round p x = x"
  using fp_round_le_repr [OF assms(1) _ assms(3), of j] fp_round_ge_repr [OF assms(1) _ assms(3), of j]
    assms(2) by simp

lemma fp_round_minus: "fp_round p (- x) = - fp_round p x"
  by (simp add: fp_round_def Let_def sgn_minus)

lemma fp_round_nonneg: "0 \<le> x \<Longrightarrow> 0 \<le> fp_round p x"
proof (cases "x = 0")
  case True
  then show ?thesis by (simp add: fp_round_def)
next
  case False
  assume "0 \<le> x"
  with False have pos: "0 < x" by simp
  show ?thesis using fp_round_ge_multiple [OF pos, of 0 p] pos by simp
qed

lemma fp_round_nonpos: "x \<le> 0 \<Longrightarrow> fp_round p x \<le> 0"
  using fp_round_nonneg [of "- x" p] by (simp add: fp_round_minus)

lemma fp_round_int_le:
  assumes "n \<le> k" "0 \<le> k" "k < 2 ^ p"
  shows "fp_round p (of_int n) \<le> of_int k"
proof (cases "0 < n")
  case True
  then have pos: "0 < (of_int n :: rat)" by simp
  have "(of_int n :: rat) \<le> of_int k * pow2 0" using assms(1) by (simp add: pow2_def)
  from fp_round_le_repr [OF pos this assms(3)] show ?thesis by (simp add: pow2_def)
next
  case False
  then have "fp_round p (of_int n) \<le> 0" by (intro fp_round_nonpos) simp
  with assms(2) show ?thesis by (meson of_int_0_le_iff order_trans)
qed

lemma fp_round_int_ge:
  assumes "k \<le> n" "0 < k" "k < 2 ^ p"
  shows "of_int k \<le> fp_round p (of_int n)"
proof -
  have pos: "0 < (of_int n :: rat)" using assms by simp
  have "of_int k * pow2 0 \<le> (of_int n :: rat)" using assms(1) by (simp add: pow2_def)
  from fp_round_ge_repr [OF pos this assms(3)] show ?thesis by (simp add: pow2_def)
qed

lemma fp_round_int_exact:
  assumes "0 \<le> n" "n < 2 ^ p"
  shows "fp_round p (of_int n) = of_int n"
proof (cases "n = 0")
  case True
  then show ?thesis by (simp add: fp_round_def)
next
  case False
  with assms have "0 < n" by simp
  show ?thesis
    using fp_round_int_le [of n n p] fp_round_int_ge [of n n p] assms \<open>0 < n\<close> by simp
qed

lemma double_of_ll_gt_million: "double_of_ll n > 1000000 \<longleftrightarrow> n > 1000000"
proof (cases "n \<le> 1000000")
  case True
  have "fp_round 53 (of_int n) \<le> of_int 1000000"
    by (rule fp_round_int_le [OF True]) simp_all
  then show ?thesis using True by (simp add: double_of_ll_def to_double_def)
next
  case False
  then have "1000001 \<le> n" by simp
  have "of_int 1000001 \<le> fp_round 53 (of_int n)"
    by (rule fp_round_int_ge [OF \<open>1000001 \<le> n\<close>]) simp_all
  then show ?thesis using False by (simp add: double_of_ll_def to_double_def)
qed

lemma double_of_ll_lt_million: "double_of_ll n < 1000000 \<longleftrightarrow> n < 1000000"
proof (cases "n \<le> 999999")
  case True
  have "fp_round 53 (of_int n) \<le> of_int 999999"
    by (rule fp_round_int_le [OF True]) simp_all
  then show ?thesis using True by (simp add: double_of_ll_def to_double_def)
next
  case False
  then have "1000000 \<le> n" by simp
  have "of_int 1000000 \<le> fp_round 53 (of_int n)"
    by (rule fp_round_int_ge [OF \<open>1000000 \<le> n\<close>]) simp_all
  then show ?thesis using False by (simp add: double_of_ll_def to_double_def)
qed

text \<open>
  The quotient of one million by an integer below it, computed in \<^verbatim>\<open>double\<close>, lies between
  the integer quotient and a number below its successor: rounding cannot reach the next
  integer.
\<close>

lemma double_div_million_bounds:
  fixes n :: int
  assumes "1 \<le> n" "n \<le> 999999"
  shows "1 \<le> 1000000 div n \<and> 1000000 div n \<le> 1000000 \<and>
         of_int (1000000 div n) \<le> double_div 1000000 (of_int n) \<and>
         double_div 1000000 (of_int n) \<le>
           of_int ((1000000 div n + 1) * 2 ^ 20 - 1) * pow2 (- 20)"
proof -
  define k where "k = 1000000 div n"
  define x :: rat where "x = 1000000 / of_int n"
  have npos: "0 < (of_int n :: rat)" using assms(1) by simp
  have xpos: "0 < x" using npos by (simp add: x_def)
  have dm: "1000000 = n * k + 1000000 mod n" unfolding k_def by simp
  have m0: "0 \<le> 1000000 mod n" and m1: "1000000 mod n < n" using assms(1) by simp_all
  have P1: "n * k \<le> 1000000" using dm m0 by linarith
  have P2: "1000000 < n * k + n" using dm m1 by linarith
  have "0 < 1000000 div n" using assms by (simp add: pos_imp_zdiv_pos_iff)
  then have k1: "1 \<le> k" by (simp add: k_def)
  have "1 * k \<le> n * k" using assms(1) k1 by (intro mult_right_mono) simp_all
  then have kle: "k \<le> 1000000" using P1 by simp
  have lo: "of_int k * pow2 0 \<le> x"
  proof -
    have "(of_int (n * k) :: rat) \<le> of_int 1000000" using P1 by (simp only: of_int_le_iff)
    then have "of_int k * of_int n \<le> (1000000 :: rat)" by (simp add: mult.commute)
    then show ?thesis using npos by (simp add: x_def pow2_def pos_le_divide_eq)
  qed
  have lo': "of_int k \<le> fp_round 53 x"
    using fp_round_ge_repr [OF xpos lo, of 53] kle by (simp add: pow2_def)
  define m where "m = (k + 1) * 2 ^ 20 - 1"
  have hi: "x \<le> of_int m * pow2 (- 20)"
  proof -
    have "1000000 * 2 ^ 20 \<le> n * m"
    proof -
      have "n * m = (n * k + n) * 2 ^ 20 - n" by (simp add: m_def algebra_simps)
      moreover have "1000001 * 2 ^ 20 \<le> (n * k + n) * 2 ^ 20" using P2 by simp
      ultimately show ?thesis using assms(2) by simp
    qed
    then have "(of_int (1000000 * 2 ^ 20) :: rat) \<le> of_int (n * m)" by (simp only: of_int_le_iff)
    then have "1000000 * 2 ^ 20 \<le> (of_int n :: rat) * of_int m" by simp
    then show ?thesis using npos by (simp add: x_def pow2_def field_simps)
  qed
  have mlt: "m < 2 ^ 53" using kle by (simp add: m_def)
  have hi': "fp_round 53 x \<le> of_int m * pow2 (- 20)"
    by (rule fp_round_le_repr [OF xpos hi mlt])
  from k1 kle lo' hi' show ?thesis
    by (simp add: double_div_def to_double_def x_def k_def m_def)
qed

lemma double_div_million:
  fixes n :: int
  assumes "1 \<le> n" "n \<le> 999999"
  shows "ll_of_fp (double_div 1000000 (of_int n)) = 1000000 div n"
proof -
  define k where "k = 1000000 div n"
  define y where "y = double_div 1000000 (of_int n)"
  from double_div_million_bounds [OF assms]
  have k1: "1 \<le> k" and lo: "of_int k \<le> y"
    and hi: "y \<le> of_int ((k + 1) * 2 ^ 20 - 1) * pow2 (- 20)"
    by (simp_all add: k_def y_def)
  have "of_int ((k + 1) * 2 ^ 20 - 1) * pow2 (- 20) < (of_int k :: rat) + 1"
    by (simp add: pow2_def field_simps)
  with hi have up: "y < of_int k + 1" by linarith
  have "\<lfloor>y\<rfloor> = k" using lo up by (simp add: floor_unique)
  moreover have "0 \<le> y" using lo k1 by (meson of_int_0_le_iff order_trans zero_le_one)
  ultimately show ?thesis by (simp add: ll_of_fp_def y_def k_def)
qed

text \<open>The number of bytes that \<^verbatim>\<open>read_one_second\<close> reads ahead.\<close>

lemma read_ahead_count:
  fixes n :: int
  assumes "1 \<le> n" "n \<le> 999999"
  shows "ll_of_fp (double_add (double_div 1000000 (double_of_ll n)) 1) = 1000000 div n + 1"
proof -
  define k where "k = 1000000 div n"
  have dn: "double_of_ll n = of_int n"
    using assms by (simp add: double_of_ll_def to_double_def fp_round_int_exact)
  define y where "y = double_div 1000000 (of_int n) + 1"
  from double_div_million_bounds [OF assms]
  have k1: "1 \<le> k" and kle: "k \<le> 1000000" and lo: "of_int (k + 1) * pow2 0 \<le> y"
    and hi: "y \<le> of_int ((k + 2) * 2 ^ 20 - 1) * pow2 (- 20)"
    by (simp_all add: k_def y_def pow2_def field_simps)
  have "(0::rat) < of_int (k + 1)" using k1 by simp
  then have ypos: "0 < y" using lo by (simp add: pow2_def)
  have "k + 1 < 2 ^ 53" using kle by simp
  from fp_round_ge_repr [OF ypos lo this]
  have lo': "of_int (k + 1) \<le> fp_round 53 y" by (simp add: pow2_def)
  have "(k + 2) * 2 ^ 20 - 1 < 2 ^ 53" using kle by simp
  from fp_round_le_repr [OF ypos hi this]
  have hi': "fp_round 53 y \<le> of_int ((k + 2) * 2 ^ 20 - 1) * pow2 (- 20)" .
  have "of_int ((k + 2) * 2 ^ 20 - 1) * pow2 (- 20) < (of_int (k + 1) :: rat) + 1"
    by (simp add: pow2_def field_simps)
  with hi' have up: "fp_round 53 y < of_int (k + 1) + 1" by linarith
  have "\<lfloor>fp_round 53 y\<rfloor> = k + 1" using lo' up by (simp only: floor_unique)
  moreover have "0 \<le> fp_round 53 y" using lo' k1 by (simp add: order_trans [OF _ lo'])
  ultimately show ?thesis
    by (simp add: ll_of_fp_def double_add_def to_double_def dn y_def k_def)
qed

section \<open>Properties of the program\<close>

lemma getchar_cases:
  "getchar ev st = (c, st1) \<Longrightarrow>
     rb st1 = rb st \<and> stdout st1 = stdout st \<and> timer st1 = timer st \<and>
     stdin_kind st1 = stdin_kind st \<and> stderr st1 = stderr st \<and>
     c = (case fst ev of Got b \<Rightarrow> Some b | Intr \<Rightarrow> None | End_of_input \<Rightarrow> None) \<and>
     (fst ev = Intr \<longrightarrow> errno st1 = EINTR) \<and>
     (fst ev \<noteq> Intr \<longrightarrow> errno st1 = errno st)"
  by (auto simp: getchar_def Let_def split: getchar_result.splits if_splits)

lemma bytes_of_Cons:
  "bytes_of (ev # evs) = (case fst ev of Got b \<Rightarrow> [b] | Intr \<Rightarrow> [] | End_of_input \<Rightarrow> []) @ bytes_of evs"
  by (cases ev; cases "fst ev") auto

lemma getchar_frame:
  "getchar ev st = (c, st1) \<Longrightarrow>
     rb st1 = rb st \<and> stdout st1 = stdout st \<and> timer st1 = timer st \<and>
     stdin_kind st1 = stdin_kind st \<and> stderr st1 = stderr st"
  by (auto simp: getchar_def Let_def split: getchar_result.splits if_splits)

lemma getchar_bytes:
  "getchar ev st = (c, st1) \<Longrightarrow>
     bytes_of (ev # evs) = (case c of Some x \<Rightarrow> [x] | None \<Rightarrow> []) @ bytes_of evs"
  by (cases ev; cases "fst ev") (auto simp: getchar_def Let_def)

lemma bytes_of_empty_sticky: "bytes_of evs = [] \<Longrightarrow> eof_sticky evs"
  by (induction evs rule: eof_sticky.induct) auto

lemma eof_sticky_tail: "eof_sticky (ev # evs) \<Longrightarrow> eof_sticky evs"
  by (cases ev; cases "fst ev") (auto simp: bytes_of_empty_sticky)

lemma reset_timer_frame:
  "rb (final_state (reset_timer i f st)) = rb st \<and>
   stdout (final_state (reset_timer i f st)) = stdout st \<and>
   stdin_kind (final_state (reset_timer i f st)) = stdin_kind st"
  by (auto simp: reset_timer_def is_regular_def perror_def fputs_def set_timer_def Let_def
      split: source_kind.splits)

lemma reset_timer_regular: "stdin_kind st = Regular \<Longrightarrow> reset_timer i f st = Return i st"
  by (simp add: reset_timer_def is_regular_def)

lemma service_signal_queue:
  "stdout (final_state (service_signal i b st)) @ rb (final_state (service_signal i b st)) =
     stdout st @ rb st \<and>
   stdin_kind (final_state (service_signal i b st)) = stdin_kind st"
proof (cases "received_signal st")
  case False
  then show ?thesis by (simp add: service_signal_def)
next
  case True
  show ?thesis
  proof (cases "rb st")
    case Nil
    then show ?thesis
      using True reset_timer_frame [of i factor_slow st]
      by (cases "reset_timer i factor_slow st") (auto simp: service_signal_def rb_pop_def)
  next
    case (Cons x xs)
    then show ?thesis
      using True by (simp add: service_signal_def rb_pop_def putchar_def)
  qed
qed

lemma obind_Return_iff:
  "obind m f = Return y st' \<longleftrightarrow> (\<exists>x st1. m = Return x st1 \<and> f x st1 = Return y st')"
  by (cases m) auto

lemma service_signal_Return:
  assumes "service_signal i b st = Return (i', b') st'"
  shows "stdout st' @ rb st' = stdout st @ rb st \<and> stdin_kind st' = stdin_kind st"
  using service_signal_queue [of i b st] assms by simp

lemma adjust_rate_frame:
  "rb (final_state (adjust_rate i b st)) = rb st \<and>
   stdout (final_state (adjust_rate i b st)) = stdout st \<and>
   stdin_kind (final_state (adjust_rate i b st)) = stdin_kind st"
proof (cases "b > DELAY_SIZE")
  case True
  then have nb: "\<not> (0::int) < - DELAY_SIZE" by (simp add: DELAY_SIZE_def)
  show ?thesis
    using True nb reset_timer_frame [of i factor_fast st]
    by (cases "reset_timer i factor_fast st") (simp_all add: adjust_rate_def)
next
  case False
  show ?thesis
    using False reset_timer_frame [of i factor_slow st]
    by (cases "reset_timer i factor_slow st") (simp_all add: adjust_rate_def)
qed

lemma adjust_rate_count:
  assumes "adjust_rate i b st = Return (i', b') st'"
  shows "b' = (if b > DELAY_SIZE \<or> b < - DELAY_SIZE then 0 else b)"
proof (cases "b > DELAY_SIZE")
  case True
  then have nb: "\<not> (0::int) < - DELAY_SIZE" by (simp add: DELAY_SIZE_def)
  show ?thesis
    using True nb assms
    by (cases "reset_timer i factor_fast st") (simp_all add: adjust_rate_def)
next
  case False
  show ?thesis
    using False assms
    by (cases "reset_timer i factor_slow st") (simp_all add: adjust_rate_def split: if_splits)
qed

lemma buffer_byte_queue:
  "buffer_byte c b st = (b', st') \<Longrightarrow>
     rb st' = rb st @ (case c of Some x \<Rightarrow> [x] | None \<Rightarrow> []) \<and> stdout st' = stdout st \<and>
     stdin_kind st' = stdin_kind st \<and> b' = b + (case c of Some x \<Rightarrow> 1 | None \<Rightarrow> 0)"
  by (auto simp: buffer_byte_def rb_xpush_def split: option.splits)

lemma stream_body_Return:
  assumes "stream_body c i b st = Return (i', b') st'"
  shows "stdout st' @ rb st' = stdout st @ rb st @ (case c of Some x \<Rightarrow> [x] | None \<Rightarrow> []) \<and>
         stdin_kind st' = stdin_kind st"
proof -
  from assms obtain i1 b1 st1 where
    s1: "service_signal i b st = Return (i1, b1) st1" and
    r: "(let (b2, st2) = buffer_byte c b1 st1 in adjust_rate i1 b2 st2) = Return (i', b') st'"
    by (auto simp: stream_body_def obind_Return_iff)
  obtain b2 st2 where s2: "buffer_byte c b1 st1 = (b2, st2)" by (cases "buffer_byte c b1 st1")
  with r have s3: "adjust_rate i1 b2 st2 = Return (i', b') st'" by simp
  from adjust_rate_frame [of i1 b2 st2] s3
  have "rb st' = rb st2" "stdout st' = stdout st2" "stdin_kind st' = stdin_kind st2" by simp_all
  with buffer_byte_queue [OF s2] service_signal_Return [OF s1] show ?thesis by simp
qed

lemma stream_body_prefix:
  "prefix (stdout (final_state (stream_body c i b st))) (stdout st @ rb st)"
proof -
  have A: "prefix (stdout (final_state (service_signal i b st))) (stdout st @ rb st)"
    using service_signal_queue [of i b st] by (metis prefixI)
  show ?thesis
  proof (cases "service_signal i b st")
    case (Return x st1)
    obtain i1 b1 where x: "x = (i1, b1)" by (cases x)
    obtain b2 st2 where s2: "buffer_byte c b1 st1 = (b2, st2)" by (cases "buffer_byte c b1 st1")
    have "stdout (final_state (stream_body c i b st)) = stdout st1"
      using Return x s2 adjust_rate_frame [of i1 b2 st2] buffer_byte_queue [OF s2]
      by (simp add: stream_body_def)
    with A Return show ?thesis by simp
  next
    case (Exit n st1)
    with A show ?thesis by (simp add: stream_body_def)
  next
    case (Abort st1)
    with A show ?thesis by (simp add: stream_body_def)
  next
    case (Blocked st1)
    with A show ?thesis by (simp add: stream_body_def)
  qed
qed

lemma drain_result:
  "stdout (drain st) = stdout st @ rb st \<and> rb (drain st) = [] \<and> timer (drain st) = timer st \<and>
   stdin_kind (drain st) = stdin_kind st \<and> stderr (drain st) = stderr st"
proof (induction st rule: drain.induct)
  case (1 st)
  show ?case
  proof (cases "rb st")
    case Nil
    then show ?thesis by (simp add: drain.simps [of st] rb_pop_def)
  next
    case (Cons x xs)
    then have pop: "rb_pop (st\<lparr>received_signal := True, errno := EINTR\<rparr>) =
        (Some x, st\<lparr>received_signal := True, errno := EINTR, rb := xs\<rparr>)"
      by (simp add: rb_pop_def)
    from 1 [OF pop [symmetric] refl] pop Cons show ?thesis
      by (simp add: drain.simps [of st] putchar_def)
  qed
qed

lemma stream_loop_Return:
  "stream_loop evs i b st = Return u st' \<Longrightarrow> eof_sticky evs \<Longrightarrow>
     stdout st' = stdout st @ rb st @ bytes_of evs \<and> rb st' = []"
proof (induction evs arbitrary: i b st)
  case Nil
  then show ?case by simp
next
  case (Cons ev evs)
  obtain c st1 where g: "getchar ev st = (c, st1)" by (cases "getchar ev st")
  note gc = getchar_cases [OF g]
  show ?case
  proof (cases "c \<noteq> None \<or> errno st1 = EINTR")
    case True
    with Cons.prems(1) g obtain i1 b1 st2 where
      sb: "stream_body c i b st1 = Return (i1, b1) st2" and
      lp: "stream_loop evs i1 b1 st2 = Return u st'"
      by (auto simp: obind_Return_iff)
    from Cons.IH [OF lp eof_sticky_tail [OF Cons.prems(2)]]
    have "stdout st' = stdout st2 @ rb st2 @ bytes_of evs" "rb st' = []" by simp_all
    with stream_body_Return [OF sb] gc show ?thesis
      by (simp add: bytes_of_Cons [of ev evs] split: getchar_result.splits)
  next
    case False
    then have cn: "c = None" and ne: "errno st1 \<noteq> EINTR" by simp_all
    from gc cn ne have ev: "fst ev = End_of_input"
      by (cases "fst ev") simp_all
    then have "bytes_of evs = []" using Cons.prems(2) by (cases ev) simp
    moreover from Cons.prems(1) g False have "st' = drain (st1\<lparr>errno := 0\<rparr>)" by auto
    ultimately show ?thesis using gc ev drain_result [of "st1\<lparr>errno := 0\<rparr>"]
      by (simp add: bytes_of_Cons [of ev evs])
  qed
qed

lemma stream_loop_prefix:
  "prefix (stdout (final_state (stream_loop evs i b st))) (stdout st @ rb st @ bytes_of evs)"
proof (induction evs arbitrary: i b st)
  case Nil
  then show ?case by simp
next
  case (Cons ev evs)
  obtain c st1 where g: "getchar ev st = (c, st1)" by (cases "getchar ev st")
  note gc = getchar_cases [OF g]
  have bc: "bytes_of (ev # evs) = (case c of Some x \<Rightarrow> [x] | None \<Rightarrow> []) @ bytes_of evs"
    using gc by (simp add: bytes_of_Cons [of ev evs] split: getchar_result.splits)
  show ?case
  proof (cases "c \<noteq> None \<or> errno st1 = EINTR")
    case True
    show ?thesis
    proof (cases "stream_body c i b st1")
      case (Return x st2)
      obtain i1 b1 where x: "x = (i1, b1)" by (cases x)
      from stream_body_Return [of c i b st1 i1 b1 st2] Return x
      have q: "stdout st2 @ rb st2 = stdout st1 @ rb st1 @ (case c of Some x \<Rightarrow> [x] | None \<Rightarrow> [])"
        by simp
      have "prefix (stdout (final_state (stream_loop evs i1 b1 st2)))
              (stdout st2 @ rb st2 @ bytes_of evs)" by (rule Cons.IH)
      also have "stdout st2 @ rb st2 @ bytes_of evs = stdout st @ rb st @ bytes_of (ev # evs)"
        using q gc bc by (metis append.assoc)
      finally show ?thesis using g True Return x by simp
    next
      case (Exit n st2)
      have "prefix (stdout st2) (stdout st1 @ rb st1)"
        using stream_body_prefix [of c i b st1] Exit by simp
      then show ?thesis using g True Exit gc
        by (simp add: prefix_def) (metis append.assoc)
    next
      case (Abort st2)
      have "prefix (stdout st2) (stdout st1 @ rb st1)"
        using stream_body_prefix [of c i b st1] Abort by simp
      then show ?thesis using g True Abort gc
        by (simp add: prefix_def) (metis append.assoc)
    next
      case (Blocked st2)
      have "prefix (stdout st2) (stdout st1 @ rb st1)"
        using stream_body_prefix [of c i b st1] Blocked by simp
      then show ?thesis using g True Blocked gc
        by (simp add: prefix_def) (metis append.assoc)
    qed
  next
    case False
    then show ?thesis using g gc drain_result [of "st1\<lparr>errno := 0\<rparr>"]
      by (simp add: prefix_def)
  qed
qed

lemma estimate_loop_Return:
  "estimate_loop evs n st = Return (m, rest) st' \<Longrightarrow>
     stdout st' = stdout st \<and> rb st' @ bytes_of rest = rb st @ bytes_of evs \<and>
     (eof_sticky evs \<longrightarrow> eof_sticky rest)"
proof (induction evs arbitrary: n st)
  case Nil
  then show ?case by simp
next
  case (Cons ev evs)
  obtain c st1 where g: "getchar ev st = (c, st1)" by (cases "getchar ev st")
  note gc = getchar_frame [OF g] and gb = getchar_bytes [OF g]
  show ?case
  proof (cases c)
    case None
    with Cons.prems g gc gb [of evs] show ?thesis
      by (auto simp: eof_sticky_tail)
  next
    case (Some x)
    with Cons.prems g have "estimate_loop evs (n + 1) (rb_xpush x st1) = Return (m, rest) st'"
      by simp
    from Cons.IH [OF this] Some gc gb [of evs] show ?thesis
      by (auto simp: rb_xpush_def eof_sticky_tail)
  qed
qed

lemma estimate_loop_stdout: "stdout (final_state (estimate_loop evs n st)) = stdout st"
proof (induction evs arbitrary: n st)
  case Nil
  then show ?case by simp
next
  case (Cons ev evs)
  obtain c st1 where g: "getchar ev st = (c, st1)" by (cases "getchar ev st")
  from getchar_frame [OF g] g Cons.IH show ?case
    by (cases c) (simp_all add: rb_xpush_def)
qed

lemma read_loop_Return:
  "read_loop n evs st = Return rest st' \<Longrightarrow>
     stdout st' = stdout st \<and> rb st' @ bytes_of rest = rb st @ bytes_of evs \<and>
     (eof_sticky evs \<longrightarrow> eof_sticky rest)"
proof (induction evs arbitrary: n st)
  case Nil
  then show ?case by (simp split: if_splits)
next
  case (Cons ev evs)
  show ?case
  proof (cases "n > 0")
    case False
    with Cons.prems show ?thesis by simp
  next
    case True
    obtain c st1 where g: "getchar ev st = (c, st1)" by (cases "getchar ev st")
    note gc = getchar_frame [OF g] and gb = getchar_bytes [OF g]
    show ?thesis
    proof (cases c)
      case None
      with Cons.prems g gc gb [of evs] True show ?thesis
        by (auto simp: eof_sticky_tail)
    next
      case (Some x)
      with Cons.prems g True have "read_loop (n - 1) evs (rb_xpush x st1) = Return rest st'"
        by simp
      from Cons.IH [OF this] Some gc gb [of evs] show ?thesis
        by (auto simp: rb_xpush_def eof_sticky_tail)
    qed
  qed
qed

lemma read_loop_stdout: "stdout (final_state (read_loop n evs st)) = stdout st"
proof (induction evs arbitrary: n st)
  case Nil
  then show ?case by simp
next
  case (Cons ev evs)
  obtain c st1 where g: "getchar ev st = (c, st1)" by (cases "getchar ev st")
  from getchar_frame [OF g] g Cons.IH show ?case
    by (cases c) (simp_all add: rb_xpush_def)
qed

lemma read_one_second_Return:
  "read_one_second i evs st = Return rest st' \<Longrightarrow>
     stdout st' = stdout st \<and> rb st' @ bytes_of rest = rb st @ bytes_of evs \<and>
     (eof_sticky evs \<longrightarrow> eof_sticky rest)"
  by (auto simp: read_one_second_def Let_def split: if_splits dest!: read_loop_Return)

lemma read_one_second_stdout: "stdout (final_state (read_one_second i evs st)) = stdout st"
  by (simp add: read_one_second_def Let_def read_loop_stdout)

lemma estimate_input_rate_Return:
  assumes "estimate_input_rate evs st = Return (i, rest) st'"
  shows "stdout st' = stdout st \<and> rb st' @ bytes_of rest = rb st @ bytes_of evs \<and>
     (eof_sticky evs \<longrightarrow> eof_sticky rest)"
proof (cases evs)
  case Nil
  with assms show ?thesis by (simp add: estimate_input_rate_def)
next
  case (Cons ev evs1)
  obtain c st1 where g: "getchar ev st = (c, st1)" by (cases "getchar ev st")
  note gc = getchar_frame [OF g] and gb = getchar_bytes [OF g]
  define st4 where "st4 = (set_timer 999999 0 (case c of Some b \<Rightarrow> rb_xpush b st1 | None \<Rightarrow> st1))\<lparr>errno := 0\<rparr>"
  from assms Cons g obtain m st5 where
    lp: "estimate_loop evs1 0 st4 = Return (m, rest) st5" and
    st': "st' = st5\<lparr>received_signal := False\<rparr>"
    by (auto simp: estimate_input_rate_def Let_def st4_def obind_Return_iff split: if_splits)
  have "stdout st4 = stdout st" "rb st4 @ bytes_of evs1 = rb st @ bytes_of evs"
    using gc gb [of evs1] Cons
    by (auto simp: st4_def set_timer_def rb_xpush_def split: option.splits)
  with estimate_loop_Return [OF lp] st' Cons show ?thesis
    by (auto simp: eof_sticky_tail)
qed

lemma estimate_input_rate_stdout:
  "stdout (final_state (estimate_input_rate evs st)) = stdout st"
proof (cases evs)
  case Nil
  then show ?thesis by (simp add: estimate_input_rate_def)
next
  case (Cons ev evs1)
  obtain c st1 where g: "getchar ev st = (c, st1)" by (cases "getchar ev st")
  note gc = getchar_frame [OF g] and gb = getchar_bytes [OF g]
  define st4 where "st4 = (set_timer 999999 0 (case c of Some b \<Rightarrow> rb_xpush b st1 | None \<Rightarrow> st1))\<lparr>errno := 0\<rparr>"
  have s4: "stdout st4 = stdout st"
    using gc by (auto simp: st4_def set_timer_def rb_xpush_def split: option.splits)
  show ?thesis
    using estimate_loop_stdout [of evs1 0 st4] s4 Cons g
    by (cases "estimate_loop evs1 0 st4")
       (auto simp: estimate_input_rate_def Let_def st4_def fputs_def split: if_splits prod.splits)
qed

lemma obind_Exit_iff:
  "obind m f = Exit n st' \<longleftrightarrow>
     m = Exit n st' \<or> (\<exists>x st1. m = Return x st1 \<and> f x st1 = Exit n st')"
  by (cases m) auto

lemma is_regular_status: "is_regular name st = Exit n st' \<Longrightarrow> n = 1"
  by (auto simp: is_regular_def split: source_kind.splits)

lemma reset_timer_status: "reset_timer i f st = Exit n st' \<Longrightarrow> n = 1"
  by (auto simp: reset_timer_def obind_Exit_iff Let_def split: if_splits dest: is_regular_status)

lemma service_signal_status: "service_signal i b st = Exit n st' \<Longrightarrow> n = 1"
  by (auto simp: service_signal_def obind_Exit_iff Let_def
      split: if_splits prod.splits option.splits dest: reset_timer_status)

lemma adjust_rate_status: "adjust_rate i b st = Exit n st' \<Longrightarrow> n = 1"
  by (auto simp: adjust_rate_def obind_Exit_iff obind_Return_iff
      split: if_splits dest: reset_timer_status)

lemma stream_body_status:
  assumes "stream_body c i b st = Exit n st'"
  shows "n = 1"
proof (cases "service_signal i b st")
  case (Return x st1)
  obtain i1 b1 where x: "x = (i1, b1)" by (cases x)
  obtain b2 st2 where s2: "buffer_byte c b1 st1 = (b2, st2)" by (cases "buffer_byte c b1 st1")
  from assms Return x s2 have "adjust_rate i1 b2 st2 = Exit n st'"
    by (simp add: stream_body_def)
  then show ?thesis by (rule adjust_rate_status)
next
  case (Exit m st1)
  with assms show ?thesis by (auto simp: stream_body_def dest: service_signal_status)
next
  case (Abort st1)
  with assms show ?thesis by (simp add: stream_body_def)
next
  case (Blocked st1)
  with assms show ?thesis by (simp add: stream_body_def)
qed

lemma stream_loop_status: "stream_loop evs i b st = Exit n st' \<Longrightarrow> n = 1"
proof (induction evs arbitrary: i b st)
  case Nil
  then show ?case by simp
next
  case (Cons ev evs)
  obtain c st1 where g: "getchar ev st = (c, st1)" by (cases "getchar ev st")
  from Cons.prems g show ?case
    by (auto simp: obind_Exit_iff split: if_splits dest: stream_body_status Cons.IH)
qed

lemma estimate_loop_no_exit: "estimate_loop evs m st \<noteq> Exit n st'"
proof (induction evs arbitrary: m st)
  case Nil
  then show ?case by simp
next
  case (Cons ev evs)
  obtain c st1 where g: "getchar ev st = (c, st1)" by (cases "getchar ev st")
  from g Cons.IH show ?case by (cases c) simp_all
qed

lemma read_loop_no_exit: "read_loop m evs st \<noteq> Exit n st'"
proof (induction evs arbitrary: m st)
  case Nil
  then show ?case by simp
next
  case (Cons ev evs)
  obtain c st1 where g: "getchar ev st = (c, st1)" by (cases "getchar ev st")
  from g Cons.IH show ?case by (cases c) simp_all
qed

lemma estimate_input_rate_status: "estimate_input_rate evs st = Exit n st' \<Longrightarrow> n = 1"
  by (auto simp: estimate_input_rate_def obind_Exit_iff Let_def estimate_loop_no_exit
      split: list.splits prod.splits if_splits)

lemma read_one_second_no_exit: "read_one_second i evs st \<noteq> Exit n st'"
  by (simp add: read_one_second_def Let_def read_loop_no_exit)

lemma stream_data_Return:
  "stream_data i evs st = Return u st' \<Longrightarrow> eof_sticky evs \<Longrightarrow>
     stdout st' = stdout st @ rb st @ bytes_of evs"
  by (auto simp: stream_data_def set_timer_def dest!: stream_loop_Return)

lemma stream_data_prefix:
  "prefix (stdout (final_state (stream_data i evs st))) (stdout st @ rb st @ bytes_of evs)"
  using stream_loop_prefix [of evs i 0 "(set_timer i i st)\<lparr>errno := 0\<rparr>"]
  by (simp add: stream_data_def set_timer_def)

lemma stream_data_status: "stream_data i evs st = Exit n st' \<Longrightarrow> n = 1"
  by (auto simp: stream_data_def dest: stream_loop_status)

lemma parse_argument_frame:
  "parse_argument_for_interval arg st = (i, st') \<Longrightarrow>
     rb st' = rb st \<and> stdout st' = stdout st \<and> stdin_kind st' = stdin_kind st"
  by (auto simp: parse_argument_for_interval_def msg_def fputs_def split: prod.splits if_splits)

lemma main_Exit0:
  assumes "main args evs st = Exit 0 st'" "eof_sticky evs"
  shows "stdout st' = stdout st @ bytes_of evs"
proof -
  define st1 where "st1 = rb_create st"
  have st1: "rb st1 = []" "stdout st1 = stdout st" by (simp_all add: st1_def rb_create_def)
  from assms(1) have sh: "set_handler st1 = Return () st1"
    by (auto simp: main_def st1_def set_handler_def perror_def fputs_def obind_Exit_iff
        split: option.splits)
  show ?thesis
  proof (cases args)
    case Nil
    from assms(1) sh Nil obtain st2 i rest st3 u where
      r: "is_regular ''stdin'' st1 = Return False st2" and
      e: "estimate_input_rate evs st2 = Return (i, rest) st3" and
      s: "stream_data i rest st3 = Return u st'"
      by (auto simp: main_def st1_def [symmetric] obind_Exit_iff obind_Return_iff
          split: if_splits prod.splits
          dest: is_regular_status estimate_input_rate_status stream_data_status)
    from r have "st2 = st1" by (auto simp: is_regular_def split: source_kind.splits)
    with estimate_input_rate_Return [OF e] assms(2) st1
    have "stdout st3 = stdout st" "rb st3 @ bytes_of rest = bytes_of evs" "eof_sticky rest"
      by simp_all
    with stream_data_Return [OF s] show ?thesis by simp
  next
    case (Cons arg args')
    obtain i st2 where p: "parse_argument_for_interval arg st1 = (i, st2)"
      by (cases "parse_argument_for_interval arg st1")
    from assms(1) sh Cons p obtain rest st3 u where
      e: "read_one_second i evs st2 = Return rest st3" and
      s: "stream_data i rest st3 = Return u st'"
      by (auto simp: main_def st1_def [symmetric] obind_Exit_iff obind_Return_iff
          read_one_second_no_exit dest: stream_data_status)
    from read_one_second_Return [OF e] assms(2) st1 parse_argument_frame [OF p]
    have "stdout st3 = stdout st" "rb st3 @ bytes_of rest = bytes_of evs" "eof_sticky rest"
      by simp_all
    with stream_data_Return [OF s] show ?thesis by simp
  qed
qed

lemma final_state_obind_Exit: "final_state (obind m (\<lambda>x s. Exit n s)) = final_state m"
  by (cases m) auto

lemma main_prefix:
  "prefix (stdout (final_state (main args evs st))) (stdout st @ bytes_of evs)"
proof -
  define st1 where "st1 = rb_create st"
  have st1: "rb st1 = []" "stdout st1 = stdout st" by (simp_all add: st1_def rb_create_def)
  show ?thesis
  proof (cases "sigaction_error st1")
    case (Some errtext)
    then show ?thesis
      by (simp add: main_def st1_def [symmetric] set_handler_def perror_def fputs_def st1)
  next
    case None
    then have sh: "set_handler st1 = Return () st1" by (simp add: set_handler_def)
    show ?thesis
    proof (cases args)
      case Nil
      show ?thesis
      proof (cases "stdin_kind st1")
        case Regular
        then show ?thesis using sh Nil
          by (simp add: main_def st1_def [symmetric] is_regular_def fputs_def st1)
      next
        case (Stat_failed errtext)
        then show ?thesis using sh Nil
          by (simp add: main_def st1_def [symmetric] is_regular_def perror_def fputs_def st1)
      next
        case Live
        then have m: "main args evs st =
            obind (obind (estimate_input_rate evs st1) (\<lambda>(interval, rest) st3.
                     stream_data interval rest st3)) (\<lambda>_ st4. Exit 0 st4)"
          using sh Nil by (simp add: main_def st1_def [symmetric] is_regular_def)
        show ?thesis
        proof (cases "estimate_input_rate evs st1")
          case (Return x st3)
          obtain i rest where x: "x = (i, rest)" by (cases x)
          from estimate_input_rate_Return [of evs st1 i rest st3] Return x st1
          have q: "stdout st3 @ rb st3 @ bytes_of rest = stdout st @ bytes_of evs" by simp
          show ?thesis
            using stream_data_prefix [of i rest st3] Return x
            unfolding m q by (simp add: final_state_obind_Exit)
        next
          case (Exit n st3)
          with estimate_input_rate_stdout [of evs st1] st1 show ?thesis unfolding m by simp
        next
          case (Abort st3)
          with estimate_input_rate_stdout [of evs st1] st1 show ?thesis unfolding m by simp
        next
          case (Blocked st3)
          with estimate_input_rate_stdout [of evs st1] st1 show ?thesis unfolding m by simp
        qed
      qed
    next
      case (Cons arg args')
      obtain i st2 where p: "parse_argument_for_interval arg st1 = (i, st2)"
        by (cases "parse_argument_for_interval arg st1")
      note pf = parse_argument_frame [OF p]
      have m: "main args evs st =
          obind (obind (read_one_second i evs st2) (\<lambda>rest st3. stream_data i rest st3))
            (\<lambda>_ st4. Exit 0 st4)"
        using sh Cons p by (simp add: main_def st1_def [symmetric])
      show ?thesis
      proof (cases "read_one_second i evs st2")
        case (Return rest st3)
        from read_one_second_Return [OF Return] st1 pf
        have q: "stdout st3 @ rb st3 @ bytes_of rest = stdout st @ bytes_of evs" by simp
        show ?thesis
          using stream_data_prefix [of i rest st3] Return
          unfolding m q by (simp add: final_state_obind_Exit)
      next
        case (Exit n st3)
        with read_one_second_stdout [of i evs st2] st1 pf show ?thesis unfolding m by simp
      next
        case (Abort st3)
        with read_one_second_stdout [of i evs st2] st1 pf show ?thesis unfolding m by simp
      next
        case (Blocked st3)
        with read_one_second_stdout [of i evs st2] st1 pf show ?thesis unfolding m by simp
      qed
    qed
  qed
qed

lemma service_signal_count:
  assumes "service_signal i b st = Return (i1, b1) st1"
  shows "b1 = b - (if received_signal st then 1 else 0)"
  using assms
  by (auto simp: service_signal_def Let_def obind_Return_iff split: if_splits)

lemma service_signal_regular:
  assumes "stdin_kind st = Regular"
  shows "\<exists>b' st'. service_signal i b st = Return (i, b') st' \<and> timer st' = timer st \<and>
           stdin_kind st' = Regular \<and> errno st' = (if received_signal st then 0 else errno st)"
proof (cases "received_signal st")
  case False
  with assms show ?thesis by (simp add: service_signal_def)
next
  case True
  show ?thesis
  proof (cases "rb st")
    case Nil
    with True assms show ?thesis
      by (simp add: service_signal_def rb_pop_def reset_timer_regular)
  next
    case (Cons x xs)
    with True assms show ?thesis
      by (simp add: service_signal_def rb_pop_def putchar_def)
  qed
qed

lemma adjust_rate_regular:
  assumes "stdin_kind st = Regular"
  shows "\<exists>b'. adjust_rate i b st = Return (i, b') st"
proof -
  have nb: "\<not> (0::int) < - DELAY_SIZE" by (simp add: DELAY_SIZE_def)
  show ?thesis
    using assms nb by (simp add: adjust_rate_def reset_timer_regular)
qed

lemma stream_body_regular:
  assumes "stdin_kind st = Regular"
  shows "\<exists>b' st'. stream_body c i b st = Return (i, b') st' \<and> timer st' = timer st \<and>
           stdin_kind st' = Regular \<and> errno st' = (if received_signal st then 0 else errno st)"
proof -
  from service_signal_regular [OF assms, of i b] obtain b1 st1 where
    s1: "service_signal i b st = Return (i, b1) st1" and
    f1: "timer st1 = timer st" "stdin_kind st1 = Regular"
        "errno st1 = (if received_signal st then 0 else errno st)"
    by blast
  obtain b2 st2 where s2: "buffer_byte c b1 st1 = (b2, st2)" by (cases "buffer_byte c b1 st1")
  then have f2: "timer st2 = timer st1" "stdin_kind st2 = stdin_kind st1" "errno st2 = errno st1"
    by (auto simp: buffer_byte_def rb_xpush_def split: option.splits)
  from adjust_rate_regular [of st2 i b2] f1 f2 obtain b3 where
    s3: "adjust_rate i b2 st2 = Return (i, b3) st2" by auto
  from s1 s2 s3 f1 f2 show ?thesis by (simp add: stream_body_def)
qed

lemma stream_loop_regular:
  assumes "stdin_kind st = Regular"
  shows "case stream_loop evs i b st of
           Return u st' \<Rightarrow> timer st' = timer st
         | Exit n st' \<Rightarrow> False
         | Abort st' \<Rightarrow> False
         | Blocked st' \<Rightarrow> timer st' = timer st"
  using assms
proof (induction evs arbitrary: b st)
  case Nil
  then show ?case by simp
next
  case (Cons ev evs)
  obtain c st1 where g: "getchar ev st = (c, st1)" by (cases "getchar ev st")
  note gf = getchar_frame [OF g]
  show ?case
  proof (cases "c \<noteq> None \<or> errno st1 = EINTR")
    case True
    from stream_body_regular [of st1 c i b] gf Cons.prems obtain b' st2 where
      sb: "stream_body c i b st1 = Return (i, b') st2" and
      f: "timer st2 = timer st1" "stdin_kind st2 = Regular" by auto
    from Cons.IH [OF f(2), of b'] f gf g True sb show ?thesis
      by (auto split: outcome.splits)
  next
    case False
    with g gf drain_result [of "st1\<lparr>errno := 0\<rparr>"] show ?thesis by simp
  qed
qed

lemma stream_loop_regular_completes:
  assumes "stdin_kind st = Regular"
  shows "\<exists>st'. stream_loop (evs @ [(End_of_input, True), (End_of_input, t)]) i b st = Return () st' \<and>
           timer st' = timer st"
  using assms
proof (induction evs arbitrary: b st)
  case Nil
  define st1 where "st1 = st\<lparr>received_signal := True\<rparr>"
  have g: "getchar (End_of_input, True) st = (None, st1)" by (simp add: getchar_def st1_def)
  have f1: "timer st1 = timer st" "stdin_kind st1 = Regular" "received_signal st1"
    "errno st1 = errno st"
    using Nil by (simp_all add: st1_def)
  show ?case
  proof (cases "errno st = EINTR")
    case False
    with g f1 drain_result [of "st1\<lparr>errno := 0\<rparr>"] show ?thesis by simp
  next
    case True
    from stream_body_regular [OF f1(2), of None i b] f1 obtain b' st2 where
      sb: "stream_body None i b st1 = Return (i, b') st2" and
      f2: "timer st2 = timer st" "errno st2 = 0" by auto
    have g2: "getchar (End_of_input, t) st2 =
        (None, if t then st2\<lparr>received_signal := True\<rparr> else st2)"
      by (simp add: getchar_def)
    have ne: "errno (if t then st2\<lparr>received_signal := True\<rparr> else st2) \<noteq> EINTR"
      using f2 by (simp add: EINTR_def)
    from g True f1 sb g2 ne f2
      drain_result [of "(if t then st2\<lparr>received_signal := True\<rparr> else st2)\<lparr>errno := 0\<rparr>"]
    show ?thesis by simp
  qed
next
  case (Cons ev evs)
  obtain c st1 where g: "getchar ev st = (c, st1)" by (cases "getchar ev st")
  note gf = getchar_frame [OF g]
  show ?case
  proof (cases "c \<noteq> None \<or> errno st1 = EINTR")
    case True
    from stream_body_regular [of st1 c i b] gf Cons.prems obtain b' st2 where
      sb: "stream_body c i b st1 = Return (i, b') st2" and
      f: "timer st2 = timer st1" "stdin_kind st2 = Regular" by auto
    from Cons.IH [OF f(2), of b'] f gf g True sb show ?thesis by simp
  next
    case False
    with g gf drain_result [of "st1\<lparr>errno := 0\<rparr>"] show ?thesis by simp
  qed
qed


lemma estimate_loop_window:
  assumes "is_eof eof"
  shows "\<exists>st'. estimate_loop (map (\<lambda>(b, t). (Got b, t)) bs @ eof # rest) n st =
             Return (n + of_nat (length bs), rest) st' \<and>
           rb st' = rb st @ map fst bs \<and>
           received_signal st' = (received_signal st \<or> list_ex snd bs \<or> snd eof) \<and>
           timer st' = timer st \<and> stderr st' = stderr st \<and> stdout st' = stdout st \<and>
           stdin_kind st' = stdin_kind st \<and> sigaction_error st' = sigaction_error st \<and>
           errno st' = (if fst eof = Intr then EINTR else errno st)"
proof (induction bs arbitrary: n st)
  case Nil
  obtain e t where l: "eof = (e, t)" by (cases eof)
  with assms show ?case
    by (auto simp: is_eof_def getchar_def)
next
  case (Cons x bs)
  obtain b t where x: "x = (b, t)" by (cases x)
  define st1 where "st1 = rb_xpush b (if t then st\<lparr>received_signal := True\<rparr> else st)"
  have step: "estimate_loop (map (\<lambda>(b, t). (Got b, t)) (x # bs) @ eof # rest) n st =
      estimate_loop (map (\<lambda>(b, t). (Got b, t)) bs @ eof # rest) (n + 1) st1"
    by (simp add: x getchar_def st1_def)
  have f: "rb st1 = rb st @ [b]" "received_signal st1 = (received_signal st \<or> t)"
    "timer st1 = timer st" "stderr st1 = stderr st" "stdout st1 = stdout st"
    "stdin_kind st1 = stdin_kind st" "sigaction_error st1 = sigaction_error st"
    "errno st1 = errno st"
    by (simp_all add: st1_def rb_xpush_def)
  from Cons.IH [of "n + 1" st1] obtain st' where
    "estimate_loop (map (\<lambda>(b, t). (Got b, t)) bs @ eof # rest) (n + 1) st1 =
       Return (n + 1 + of_nat (length bs), rest) st'"
    "rb st' = rb st1 @ map fst bs"
    "received_signal st' = (received_signal st1 \<or> list_ex snd bs \<or> snd eof)"
    "timer st' = timer st1" "stderr st' = stderr st1" "stdout st' = stdout st1"
    "stdin_kind st' = stdin_kind st1" "sigaction_error st' = sigaction_error st1"
    "errno st' = (if fst eof = Intr then EINTR else errno st1)"
    by blast
  with step f x show ?case by (auto simp: add.assoc add.commute)
qed

lemma size_t_of_length:
  assumes "k < 2 ^ 64"
  shows "((of_nat k :: 64 word) < 1 \<longleftrightarrow> k < 1) \<and> ((of_nat k :: 64 word) > 999999 \<longleftrightarrow> k > 999999) \<and>
         uint (of_nat k :: 64 word) = int k"
proof -
  have u: "unat (of_nat k :: 64 word) = k" using assms by (simp add: unat_of_nat)
  have "unat (999999 :: 64 word) = 999999" by simp
  with u show ?thesis by (simp add: word_less_nat_alt uint_nat)
qed

text \<open>What the estimator decides on a trace with \<open>bs\<close> in the window.\<close>

lemma estimate_input_rate_window:
  fixes bs :: "(byte \<times> bool) list"
  assumes "is_eof eof" "length bs < 2 ^ 64"
  shows "\<exists>st'. timer st' = (999999, 0) \<and> stdout st' = stdout st \<and>
           stdin_kind st' = stdin_kind st \<and> sigaction_error st' = sigaction_error st \<and>
           rb st' = rb st @ (case fst ev0 of Got b \<Rightarrow> [b] | Intr \<Rightarrow> [] | End_of_input \<Rightarrow> []) @
                    map fst bs \<and>
           errno st' = (if fst eof = Intr then EINTR else 0) \<and>
           (\<not> window_expired st ev0 bs eof \<or> length bs < 1 \<longrightarrow>
              estimate_input_rate (window_trace ev0 bs eof rest) st = Exit 1 st' \<and>
              stderr st' = stderr st @ ''not enough input to estimate data rate'' @ newline) \<and>
           (window_expired st ev0 bs eof \<and> 999999 < length bs \<longrightarrow>
              estimate_input_rate (window_trace ev0 bs eof rest) st = Exit 1 st' \<and>
              stderr st' = stderr st @ ''input data rate is too high'' @ newline) \<and>
           (window_expired st ev0 bs eof \<and> 1 \<le> length bs \<and> length bs \<le> 999999 \<longrightarrow>
              estimate_input_rate (window_trace ev0 bs eof rest) st =
                Return (ll_of_fp (double_div 1000000 (double_of_size_t (of_nat (length bs)))), rest)
                  st' \<and>
              stderr st' = stderr st \<and> received_signal st' = False)"
proof -
  define w where "w = (of_nat (length bs) :: 64 word)"
  have cmp: "w < 1 \<longleftrightarrow> length bs < 1" "w > 999999 \<longleftrightarrow> length bs > 999999"
    using size_t_of_length [OF assms(2)] by (simp_all add: w_def)
  obtain c st1 where g: "getchar ev0 st = (c, st1)" by (cases "getchar ev0 st")
  note gf = getchar_frame [OF g]
  have rs1: "received_signal st1 = (received_signal st \<or> snd ev0)"
    using g by (auto simp: getchar_def Let_def split: getchar_result.splits if_splits)
  define st4 where
    "st4 = (set_timer 999999 0 (case c of Some b \<Rightarrow> rb_xpush b st1 | None \<Rightarrow> st1))\<lparr>errno := 0\<rparr>"
  have c: "c = (case fst ev0 of Got b \<Rightarrow> Some b | Intr \<Rightarrow> None | End_of_input \<Rightarrow> None)"
    using getchar_cases [OF g] by simp
  have se1: "sigaction_error st1 = sigaction_error st"
    using g by (auto simp: getchar_def Let_def split: getchar_result.splits if_splits)
  have f4: "timer st4 = (999999, 0)" "stdout st4 = stdout st" "stderr st4 = stderr st"
    "received_signal st4 = (received_signal st \<or> snd ev0)" "stdin_kind st4 = stdin_kind st"
    "sigaction_error st4 = sigaction_error st" "errno st4 = 0"
    "rb st4 = rb st @ (case fst ev0 of Got b \<Rightarrow> [b] | Intr \<Rightarrow> [] | End_of_input \<Rightarrow> [])"
    using gf rs1 se1 c
    by (auto simp: st4_def set_timer_def rb_xpush_def split: option.splits getchar_result.splits)
  from estimate_loop_window [OF assms(1), of bs rest 0 st4] obtain st5 where
    lp: "estimate_loop (map (\<lambda>(b, t). (Got b, t)) bs @ eof # rest) 0 st4 = Return (w, rest) st5"
    and f5: "received_signal st5 = (received_signal st4 \<or> list_ex snd bs \<or> snd eof)"
      "timer st5 = timer st4" "stderr st5 = stderr st4" "stdout st5 = stdout st4"
      "stdin_kind st5 = stdin_kind st4" "sigaction_error st5 = sigaction_error st4"
      "rb st5 = rb st4 @ map fst bs" "errno st5 = (if fst eof = Intr then EINTR else errno st4)"
    unfolding w_def by auto
  have ex: "received_signal st5 = window_expired st ev0 bs eof"
    using f5 f4 by (auto simp: window_expired_def)
  have e: "estimate_input_rate (window_trace ev0 bs eof rest) st =
      (if \<not> received_signal st5 \<or> w < 1
       then Exit 1 (fputs (''not enough input to estimate data rate'' @ newline) st5)
       else if \<not> (w > 0 \<or> errno st5 = EINTR) then Abort st5
       else
         let st6 = st5\<lparr>received_signal := False\<rparr>
         in if w > 999999
            then Exit 1 (fputs (''input data rate is too high'' @ newline) st6)
            else Return (ll_of_fp (double_div 1000000 (double_of_size_t w)), rest) st6)"
    using g lp by (simp add: estimate_input_rate_def window_trace_def st4_def)
  have w0: "\<not> w < 1 \<Longrightarrow> w > 0" by (simp add: word_less_1 word_greater_zero_iff)
  consider (a) "\<not> window_expired st ev0 bs eof \<or> length bs < 1"
    | (b) "window_expired st ev0 bs eof" "999999 < length bs"
    | (c) "window_expired st ev0 bs eof" "1 \<le> length bs" "length bs \<le> 999999"
    by linarith
  then show ?thesis
  proof cases
    case a
    then have "\<not> received_signal st5 \<or> w < 1" using ex cmp by blast
    with e have "estimate_input_rate (window_trace ev0 bs eof rest) st =
        Exit 1 (fputs (''not enough input to estimate data rate'' @ newline) st5)" by simp
    with a f4 f5 show ?thesis
      by (intro exI [of _ "fputs (''not enough input to estimate data rate'' @ newline) st5"])
         (auto simp: fputs_def)
  next
    case b
    then have "\<not> length bs < 1" by linarith
    with b have "received_signal st5" "\<not> w < 1" "w > 999999" using ex cmp by blast+
    with e w0 have "estimate_input_rate (window_trace ev0 bs eof rest) st =
        Exit 1 (fputs (''input data rate is too high'' @ newline)
          (st5\<lparr>received_signal := False\<rparr>))" by (simp add: Let_def)
    with b f4 f5 show ?thesis
      by (intro exI [of _ "fputs (''input data rate is too high'' @ newline)
              (st5\<lparr>received_signal := False\<rparr>)"])
         (auto simp: fputs_def)
  next
    case c
    then have "\<not> length bs < 1" "\<not> length bs > 999999" by linarith+
    with c have "received_signal st5" "\<not> w < 1" "\<not> w > 999999" using ex cmp by blast+
    with e w0 have "estimate_input_rate (window_trace ev0 bs eof rest) st =
        Return (ll_of_fp (double_div 1000000 (double_of_size_t w)), rest)
          (st5\<lparr>received_signal := False\<rparr>)" by (simp add: Let_def)
    with c f4 f5 show ?thesis
      by (intro exI [of _ "st5\<lparr>received_signal := False\<rparr>"]) (auto simp: w_def)
  qed
qed

lemma estimate_quotient:
  assumes "1 \<le> k" "k \<le> 999999"
  shows "ll_of_fp (double_div 1000000 (double_of_size_t (of_nat k))) = 1000000 div int k"
proof -
  have k64: "k < 2 ^ 64" using assms(2) by simp
  have "double_of_size_t (of_nat k) = fp_round 53 (of_int (int k))"
    using size_t_of_length [OF k64] by (simp add: double_of_size_t_def to_double_def)
  also have "\<dots> = of_int (int k)" using assms(2) by (intro fp_round_int_exact) simp_all
  finally show ?thesis using double_div_million [of "int k"] assms by simp
qed

lemma estimate_input_rate_returns:
  assumes "is_eof eof" "window_expired st ev0 bs eof" "1 \<le> length bs" "length bs \<le> 999999"
  shows "estimate_input_rate (window_trace ev0 bs eof rest) st =
           Return (1000000 div int (length bs), rest)
             \<lparr>rb = rb st @ (case fst ev0 of Got b \<Rightarrow> [b] | Intr \<Rightarrow> [] | End_of_input \<Rightarrow> []) @
                     map fst bs,
              received_signal = False, errno = (if fst eof = Intr then EINTR else 0),
              timer = (999999, 0), stdout = stdout st, stderr = stderr st,
              stdin_kind = stdin_kind st, sigaction_error = sigaction_error st\<rparr>"
proof -
  have k64: "length bs < 2 ^ 64" using assms(4) by simp
  from estimate_input_rate_window [OF assms(1) k64, of st ev0 rest] assms(2-4)
  obtain st' where
    f: "timer st' = (999999, 0)" "stdout st' = stdout st" "stdin_kind st' = stdin_kind st"
       "sigaction_error st' = sigaction_error st"
       "rb st' = rb st @ (case fst ev0 of Got b \<Rightarrow> [b] | Intr \<Rightarrow> [] | End_of_input \<Rightarrow> []) @
                 map fst bs"
       "errno st' = (if fst eof = Intr then EINTR else 0)"
       "stderr st' = stderr st" "received_signal st' = False" and
    e: "estimate_input_rate (window_trace ev0 bs eof rest) st =
          Return (ll_of_fp (double_div 1000000 (double_of_size_t (of_nat (length bs)))), rest) st'"
    by auto
  have "st' = \<lparr>rb = rb st @ (case fst ev0 of Got b \<Rightarrow> [b] | Intr \<Rightarrow> [] | End_of_input \<Rightarrow> []) @
                     map fst bs,
              received_signal = False, errno = (if fst eof = Intr then EINTR else 0),
              timer = (999999, 0), stdout = stdout st, stderr = stderr st,
              stdin_kind = stdin_kind st, sigaction_error = sigaction_error st\<rparr>"
    using f by (intro state.equality) simp_all
  with e estimate_quotient [OF assms(3,4)] show ?thesis by simp
qed

lemma quotient_bounds:
  fixes n :: int
  assumes "1 \<le> n" "n \<le> 999999"
  shows "1 \<le> 1000000 div n \<and> 1000000 div n \<le> 1000000"
proof -
  have "0 < 1000000 div n" using assms by (simp add: pos_imp_zdiv_pos_iff)
  moreover have "1000000 div n \<le> 1000000 div 1" using assms(1) by (intro zdiv_mono2) simp_all
  ultimately show ?thesis by simp
qed

lemma short_window_with_many_bytes:
  assumes "999999 < n" "n < 2 ^ 64"
  shows "exit_status (estimate_input_rate
           (window_trace (Got 0, False) (replicate n (0, False)) (End_of_input, False) [])
           (initial_state Live)) = Some 1 \<and>
         stderr (final_state (estimate_input_rate
           (window_trace (Got 0, False) (replicate n (0, False)) (End_of_input, False) [])
           (initial_state Live))) = ''not enough input to estimate data rate'' @ newline"
proof -
  have h1: "is_eof (End_of_input, False)" by (simp add: is_eof_def)
  have ne: "\<not> window_expired (initial_state Live) (Got 0, False) (replicate n (0, False))
      (End_of_input, False)"
    by (simp add: window_expired_def initial_state_def list_ex_iff)
  have h2: "length (replicate n (0 :: byte, False)) < 2 ^ 64" using assms(2) by simp
  from estimate_input_rate_window [OF h1 h2, of "initial_state Live" "(Got 0, False)" "[]"] ne
  show ?thesis by (auto simp: initial_state_def)
qed

lemma factor_values: "factor_slow = 4404019 / 4194304 \<and> factor_fast = 15938355 / 16777216"
  by code_simp

lemma reset_timer_live:
  assumes "stdin_kind st = Live"
  shows "reset_timer interval f st =
     (let n = ll_of_fp (float_mul (float_of_ll interval) f)
      in if n < 10 then Exit 1 (fputs (''maximum output rate is 100KB/sec'' @ newline) st)
         else if n > 1000000 then Exit 1 (fputs (''minimum output rate is 1B/sec'' @ newline) st)
         else Return n (set_timer n n st))"
  using assms by (simp add: reset_timer_def is_regular_def double_of_ll_gt_million Let_def)

lemma stream_body_count:
  assumes "stream_body c interval bytes_buffered st = Return (interval', bytes_buffered') st'"
  shows "bytes_buffered' =
        (let n = bytes_buffered - (if received_signal st then 1 else 0)
                   + (if c = None then 0 else 1)
         in if n > DELAY_SIZE \<or> n < - DELAY_SIZE then 0 else n)"
proof -
  from assms obtain i1 b1 st1 where
    s1: "service_signal interval bytes_buffered st = Return (i1, b1) st1" and
    r: "(let (b2, st2) = buffer_byte c b1 st1 in adjust_rate i1 b2 st2) =
          Return (interval', bytes_buffered') st'"
    by (auto simp: stream_body_def obind_Return_iff)
  obtain b2 st2 where s2: "buffer_byte c b1 st1 = (b2, st2)" by (cases "buffer_byte c b1 st1")
  with r have s3: "adjust_rate i1 b2 st2 = Return (interval', bytes_buffered') st'" by simp
  have "b2 = bytes_buffered - (if received_signal st then 1 else 0) + (if c = None then 0 else 1)"
    using service_signal_count [OF s1] buffer_byte_queue [OF s2] by (auto split: option.splits)
  with adjust_rate_count [OF s3] show ?thesis by (simp add: Let_def)
qed

lemma adjust_rate_factors:
  "(DELAY_SIZE < b \<longrightarrow>
      adjust_rate interval b st =
        obind (reset_timer interval factor_fast st) (\<lambda>interval1 st1. Return (interval1, 0) st1)) \<and>
   (b < - DELAY_SIZE \<longrightarrow>
      adjust_rate interval b st =
        obind (reset_timer interval factor_slow st) (\<lambda>interval1 st1. Return (interval1, 0) st1)) \<and>
   (- DELAY_SIZE \<le> b \<and> b \<le> DELAY_SIZE \<longrightarrow> adjust_rate interval b st = Return (interval, b) st)"
proof -
  have nb: "\<not> (0::int) < - DELAY_SIZE" by (simp add: DELAY_SIZE_def)
  have 1: "adjust_rate interval b st =
        obind (reset_timer interval factor_fast st) (\<lambda>interval1 st1. Return (interval1, 0) st1)"
    if "DELAY_SIZE < b"
    using that nb by (cases "reset_timer interval factor_fast st") (simp_all add: adjust_rate_def)
  have 2: "adjust_rate interval b st =
        obind (reset_timer interval factor_slow st) (\<lambda>interval1 st1. Return (interval1, 0) st1)"
    if "b < - DELAY_SIZE"
  proof -
    from that have "\<not> DELAY_SIZE < b" by (simp add: DELAY_SIZE_def)
    with that show ?thesis by (simp add: adjust_rate_def)
  qed
  have 3: "adjust_rate interval b st = Return (interval, b) st"
    if "- DELAY_SIZE \<le> b \<and> b \<le> DELAY_SIZE"
    using that by (simp add: adjust_rate_def)
  from 1 2 3 show ?thesis by blast
qed

lemma complete_finishing: "complete evs \<Longrightarrow> finishing evs"
  by (induction evs rule: complete.induct) auto

lemma all_eof_bytes: "list_all (\<lambda>ev. fst ev = End_of_input) evs \<Longrightarrow> bytes_of evs = []"
  by (induction evs rule: bytes_of.induct) auto

lemma finishing_sticky: "finishing evs \<Longrightarrow> eof_sticky evs"
  by (induction evs rule: finishing.induct) (auto simp: all_eof_bytes)

lemma all_eof_finishing:
  "evs \<noteq> [] \<Longrightarrow> list_all (\<lambda>ev. fst ev = End_of_input) evs \<Longrightarrow> finishing evs"
  by (cases evs rule: finishing.cases) auto

lemma reset_timer_outcome:
  "(\<exists>i' st'. reset_timer i f st = Return i' st' \<and> errno st' = errno st \<and>
       received_signal st' = received_signal st) \<or>
   (\<exists>st'. reset_timer i f st = Exit 1 st')"
  by (auto simp: reset_timer_def is_regular_def set_timer_def Let_def split: source_kind.splits)

lemma service_signal_outcome:
  "(\<exists>i' b' st'. service_signal i b st = Return (i', b') st' \<and>
       (received_signal st \<longrightarrow> errno st' = 0) \<and> (\<not> received_signal st \<longrightarrow> errno st' = errno st)) \<or>
   (\<exists>st'. service_signal i b st = Exit 1 st')"
proof (cases "received_signal st")
  case False
  then show ?thesis by (simp add: service_signal_def)
next
  case True
  show ?thesis
  proof (cases "rb st")
    case Nil
    with True reset_timer_outcome [of i factor_slow st] show ?thesis
      by (auto simp: service_signal_def rb_pop_def)
  next
    case (Cons x xs)
    with True show ?thesis by (simp add: service_signal_def rb_pop_def putchar_def)
  qed
qed

lemma adjust_rate_outcome:
  "(\<exists>i' b' st'. adjust_rate i b st = Return (i', b') st' \<and> errno st' = errno st) \<or>
   (\<exists>st'. adjust_rate i b st = Exit 1 st')"
proof -
  have nb: "\<not> (0::int) < - DELAY_SIZE" by (simp add: DELAY_SIZE_def)
  show ?thesis
  proof (cases "b > DELAY_SIZE")
    case True
    with nb reset_timer_outcome [of i factor_fast st] show ?thesis
      by (auto simp: adjust_rate_def)
  next
    case False
    with reset_timer_outcome [of i factor_slow st] show ?thesis
      by (auto simp: adjust_rate_def)
  qed
qed

lemma stream_body_outcome:
  "(\<exists>i' b' st'. stream_body c i b st = Return (i', b') st' \<and>
       (received_signal st \<longrightarrow> errno st' = 0) \<and> (\<not> received_signal st \<longrightarrow> errno st' = errno st)) \<or>
   (\<exists>st'. stream_body c i b st = Exit 1 st')"
proof -
  from service_signal_outcome [of i b st] show ?thesis
  proof
    assume "\<exists>st'. service_signal i b st = Exit 1 st'"
    then show ?thesis by (auto simp: stream_body_def)
  next
    assume "\<exists>i' b' st'. service_signal i b st = Return (i', b') st' \<and>
       (received_signal st \<longrightarrow> errno st' = 0) \<and> (\<not> received_signal st \<longrightarrow> errno st' = errno st)"
    then obtain i1 b1 st1 where s: "service_signal i b st = Return (i1, b1) st1"
      and e: "received_signal st \<longrightarrow> errno st1 = 0" "\<not> received_signal st \<longrightarrow> errno st1 = errno st"
      by blast
    obtain b2 st2 where bb: "buffer_byte c b1 st1 = (b2, st2)" by (cases "buffer_byte c b1 st1")
    then have e2: "errno st2 = errno st1"
      by (auto simp: buffer_byte_def rb_xpush_def split: option.splits)
    from adjust_rate_outcome [of i1 b2 st2] s bb e e2 show ?thesis
      by (auto simp: stream_body_def)
  qed
qed

lemma stream_loop_total:
  "finishing evs \<Longrightarrow> errno st \<noteq> EINTR \<Longrightarrow>
     (\<exists>st'. stream_loop evs i b st = Return () st') \<or> (\<exists>st'. stream_loop evs i b st = Exit 1 st')"
proof (induction evs arbitrary: i b st rule: finishing.induct)
  case 1
  then show ?case by simp
next
  case (2 x t evs)
  define st1 where "st1 = (if t then st\<lparr>received_signal := True\<rparr> else st)"
  have g: "getchar (Got x, t) st = (Some x, st1)" by (simp add: getchar_def st1_def)
  have e1: "errno st1 \<noteq> EINTR" using 2 by (simp add: st1_def)
  from stream_body_outcome [of "Some x" i b st1] show ?case
  proof
    assume "\<exists>st'. stream_body (Some x) i b st1 = Exit 1 st'"
    with g show ?thesis by auto
  next
    assume "\<exists>i' b' st'. stream_body (Some x) i b st1 = Return (i', b') st' \<and>
       (received_signal st1 \<longrightarrow> errno st' = 0) \<and> (\<not> received_signal st1 \<longrightarrow> errno st' = errno st1)"
    then obtain i' b' st' where sb: "stream_body (Some x) i b st1 = Return (i', b') st'"
      and e: "received_signal st1 \<longrightarrow> errno st' = 0" "\<not> received_signal st1 \<longrightarrow> errno st' = errno st1"
      by blast
    from e e1 have "errno st' \<noteq> EINTR" by (cases "received_signal st1") (simp_all add: EINTR_def)
    from 2(1) [OF _ this, of i' b'] 2(2) g sb show ?thesis by simp
  qed
next
  case (3 t evs)
  then have t: t and f: "finishing evs" by simp_all
  define st1 where "st1 = st\<lparr>received_signal := True, errno := EINTR\<rparr>"
  have g: "getchar (Intr, t) st = (None, st1)" using t by (simp add: getchar_def st1_def)
  have rs: "received_signal st1" "errno st1 = EINTR" by (simp_all add: st1_def)
  from stream_body_outcome [of None i b st1] show ?case
  proof
    assume "\<exists>st'. stream_body None i b st1 = Exit 1 st'"
    with g rs show ?thesis by auto
  next
    assume "\<exists>i' b' st'. stream_body None i b st1 = Return (i', b') st' \<and>
       (received_signal st1 \<longrightarrow> errno st' = 0) \<and> (\<not> received_signal st1 \<longrightarrow> errno st' = errno st1)"
    then obtain i' b' st' where sb: "stream_body None i b st1 = Return (i', b') st'"
      and e: "received_signal st1 \<longrightarrow> errno st' = 0" by blast
    from e rs have "errno st' \<noteq> EINTR" by (simp add: EINTR_def)
    from 3(1) [OF f this, of i' b'] g sb rs show ?thesis by simp
  qed
next
  case (4 t evs)
  define st1 where "st1 = (if t then st\<lparr>received_signal := True\<rparr> else st)"
  have g: "getchar (End_of_input, t) st = (None, st1)" by (simp add: getchar_def st1_def)
  have e1: "errno st1 \<noteq> EINTR" using 4 by (simp add: st1_def)
  with g show ?case by simp
qed

lemma read_loop_total:
  "complete evs \<Longrightarrow> \<exists>rest st'. read_loop n evs st = Return rest st' \<and> finishing rest"
proof (induction evs arbitrary: n st rule: complete.induct)
  case 1
  then show ?case by simp
next
  case (2 x t evs)
  show ?case
  proof (cases "n > 0")
    case True
    with 2 show ?thesis by (simp add: getchar_def)
  next
    case False
    with 2(2) show ?thesis by (simp add: complete_finishing)
  qed
next
  case (3 t evs)
  show ?case
  proof (cases "n > 0")
    case True
    with 3(2) show ?thesis by (simp add: getchar_def complete_finishing)
  next
    case False
    with 3(2) show ?thesis by (simp add: complete_finishing)
  qed
next
  case (4 t evs)
  show ?case
  proof (cases "n > 0")
    case True
    with 4 show ?thesis by (simp add: getchar_def all_eof_finishing)
  next
    case False
    with 4 show ?thesis by simp
  qed
qed

lemma read_one_second_total:
  assumes "complete evs"
  shows "(\<exists>rest st'. read_one_second i evs st = Return rest st' \<and> finishing rest) \<or>
         read_one_second i evs st = Abort st"
  using read_loop_total [OF assms] by (auto simp: read_one_second_def Let_def)

lemma estimate_loop_total:
  "complete evs \<Longrightarrow>
     \<exists>m rest st'. estimate_loop evs n st = Return (m, rest) st' \<and> finishing rest"
proof (induction evs arbitrary: n st rule: complete.induct)
  case 1
  then show ?case by simp
next
  case (2 x t evs)
  then show ?case by (simp add: getchar_def)
next
  case (3 t evs)
  then show ?case by (simp add: getchar_def complete_finishing)
next
  case (4 t evs)
  then show ?case by (simp add: getchar_def all_eof_finishing)
qed

lemma estimate_loop_ended:
  "evs \<noteq> [] \<Longrightarrow> list_all (\<lambda>ev. fst ev = End_of_input) evs \<Longrightarrow>
     \<exists>rest st'. estimate_loop evs n st = Return (n, rest) st'"
  by (cases evs rule: complete.cases) (auto simp: getchar_def)

lemma estimate_input_rate_total:
  assumes "complete evs"
  shows "(\<exists>i rest st'. estimate_input_rate evs st = Return (i, rest) st' \<and> finishing rest) \<or>
         (\<exists>st'. estimate_input_rate evs st = Exit 1 st')"
proof (cases evs)
  case Nil
  with assms show ?thesis by simp
next
  case (Cons ev evs1)
  obtain c st1 where g: "getchar ev st = (c, st1)" by (cases "getchar ev st")
  define st4 where
    "st4 = (set_timer 999999 0 (case c of Some b \<Rightarrow> rb_xpush b st1 | None \<Rightarrow> st1))\<lparr>errno := 0\<rparr>"
  have "\<exists>m rest st5. estimate_loop evs1 0 st4 = Return (m, rest) st5 \<and> (m = 0 \<or> finishing rest)"
  proof (cases "fst ev = End_of_input")
    case True
    with assms Cons have "evs1 \<noteq> []" "list_all (\<lambda>ev. fst ev = End_of_input) evs1"
      by (cases ev; simp)+
    from estimate_loop_ended [OF this, of 0 st4] show ?thesis by blast
  next
    case False
    with assms Cons have "complete evs1" by (cases ev; cases "fst ev") auto
    from estimate_loop_total [OF this, of 0 st4] show ?thesis by blast
  qed
  then obtain m rest st5 where
    lp: "estimate_loop evs1 0 st4 = Return (m, rest) st5" and mf: "m = 0 \<or> finishing rest"
    by blast
  have m0: "m < 1 \<longleftrightarrow> m = 0" by (simp add: word_less_1)
  have mp: "m > 0 \<longleftrightarrow> m \<noteq> 0" by (simp add: word_greater_zero_iff)
  show ?thesis
    using Cons g lp mf m0 mp
    by (auto simp: estimate_input_rate_def Let_def st4_def [symmetric])
qed

lemma stream_data_total:
  assumes "finishing evs"
  shows "(\<exists>st'. stream_data i evs st = Return () st') \<or> (\<exists>st'. stream_data i evs st = Exit 1 st')"
proof -
  have "errno ((set_timer i i st)\<lparr>errno := 0\<rparr>) \<noteq> EINTR" by (simp add: EINTR_def)
  from stream_loop_total [OF assms this, of i 0] show ?thesis by (simp add: stream_data_def)
qed

lemma main_outcome:
  assumes "complete evs"
  shows "(\<exists>st'. main args evs st = Exit 0 st') \<or> (\<exists>st'. main args evs st = Exit 1 st') \<or>
         (\<exists>st'. main args evs st = Abort st' \<and> stdout st' = stdout st)"
proof -
  define st1 where "st1 = rb_create st"
  have st1: "stdout st1 = stdout st" by (simp add: st1_def rb_create_def)
  show ?thesis
  proof (cases "sigaction_error st1")
    case (Some errtext)
    then show ?thesis by (simp add: main_def st1_def [symmetric] set_handler_def)
  next
    case None
    then have sh: "set_handler st1 = Return () st1" by (simp add: set_handler_def)
    show ?thesis
    proof (cases args)
      case Nil
      show ?thesis
      proof (cases "stdin_kind st1")
        case Regular
        then show ?thesis using sh Nil by (simp add: main_def st1_def [symmetric] is_regular_def)
      next
        case (Stat_failed errtext)
        then show ?thesis using sh Nil by (simp add: main_def st1_def [symmetric] is_regular_def)
      next
        case Live
        then have m: "main args evs st =
            obind (obind (estimate_input_rate evs st1) (\<lambda>(interval, rest) st3.
                     stream_data interval rest st3)) (\<lambda>_ st4. Exit 0 st4)"
          using sh Nil by (simp add: main_def st1_def [symmetric] is_regular_def)
        from estimate_input_rate_total [OF assms, of st1] show ?thesis
        proof
          assume "\<exists>st'. estimate_input_rate evs st1 = Exit 1 st'"
          then show ?thesis unfolding m by auto
        next
          assume "\<exists>i rest st'. estimate_input_rate evs st1 = Return (i, rest) st' \<and> finishing rest"
          then obtain i rest st3 where e: "estimate_input_rate evs st1 = Return (i, rest) st3"
            and f: "finishing rest" by blast
          from stream_data_total [OF f, of i st3] e show ?thesis unfolding m by auto
        qed
      qed
    next
      case (Cons arg args')
      obtain i st2 where p: "parse_argument_for_interval arg st1 = (i, st2)"
        by (cases "parse_argument_for_interval arg st1")
      note pf = parse_argument_frame [OF p]
      have m: "main args evs st =
          obind (obind (read_one_second i evs st2) (\<lambda>rest st3. stream_data i rest st3))
            (\<lambda>_ st4. Exit 0 st4)"
        using sh Cons p by (simp add: main_def st1_def [symmetric])
      from read_one_second_total [OF assms, of i st2] show ?thesis
      proof
        assume "read_one_second i evs st2 = Abort st2"
        with pf st1 show ?thesis unfolding m by simp
      next
        assume "\<exists>rest st'. read_one_second i evs st2 = Return rest st' \<and> finishing rest"
        then obtain rest st3 where e: "read_one_second i evs st2 = Return rest st3"
          and f: "finishing rest" by blast
        from stream_data_total [OF f, of i st3] e show ?thesis unfolding m by auto
      qed
    qed
  qed
qed

section \<open>The claims\<close>

text \<open>
  C1 (as amended). On a complete trace, and with a timer that \<^verbatim>\<open>setitimer\<close> accepts, every
  run ends, in one of three ways: with status 0, and then it has written exactly the bytes
  of its input, in their order; with status 1, after a fatal error, and then it has
  written a prefix of them; or by a failed assertion on the interval of the command line,
  and then it has written nothing.
\<close>

theorem output_is_input_unless_fatal:
  assumes "complete evs" and "setitimer_accepts (timer (final_state (main args evs st)))"
  shows "(\<exists>st'. main args evs st = Exit 0 st' \<and> stdout st' = stdout st @ bytes_of evs) \<or>
         (\<exists>st'. main args evs st = Exit 1 st' \<and>
                prefix (stdout st') (stdout st @ bytes_of evs)) \<or>
         (\<exists>st'. main args evs st = Abort st' \<and> stdout st' = stdout st)"
proof -
  have s: "eof_sticky evs" using assms(1) by (intro finishing_sticky complete_finishing)
  from main_outcome [OF assms(1), of args st] main_Exit0 [OF _ s, of args st]
    main_prefix [of args evs st]
  show ?thesis by (elim disjE exE) auto
qed

theorem output_is_input_unless_fatal_witness:
  "complete [(Got 1, False), (Got 2, False), (Got 3, False), (Got 4, True), (Intr, True),
     (End_of_input, False), (End_of_input, False)] \<and>
   setitimer_accepts (400000, 400000) \<and>
   main [''400000'']
     [(Got 1, False), (Got 2, False), (Got 3, False), (Got 4, True), (Intr, True),
      (End_of_input, False), (End_of_input, False)] (initial_state Live) =
   Exit 0 \<lparr>rb = [], received_signal = True, errno = 4, timer = (400000, 400000),
     stdout = [1, 2, 3, 4], stderr = [], stdin_kind = Live, sigaction_error = None\<rparr> \<and>
   [1, 2, 3, 4] =
   stdout (initial_state Live) @
     bytes_of [(Got 1, False), (Got 2, False), (Got 3, False), (Got 4, True), (Intr, True),
       (End_of_input, False), (End_of_input, False)]"
proof -
  let ?tr = "[(Got 1, False), (Got 2, False), (Got 3, False), (Got 4, True), (Intr, True),
     (End_of_input, False), (End_of_input, False)]"
  have c: "complete ?tr" by simp
  have m: "main [''400000''] ?tr (initial_state Live) =
     Exit 0 \<lparr>rb = [], received_signal = True, errno = 4, timer = (400000, 400000),
       stdout = [1, 2, 3, 4], stderr = [], stdin_kind = Live, sigaction_error = None\<rparr>"
    by code_simp
  have a: "setitimer_accepts (400000, 400000)" by (simp add: setitimer_accepts_def)
  then have a': "setitimer_accepts (timer (final_state (main [''400000''] ?tr (initial_state Live))))"
    by (simp add: m)
  from output_is_input_unless_fatal [OF c a'] m c a
  show ?thesis by simp
qed

text \<open>
  Without the exception for the fatal errors the property fails: with no argument, a live
  source and one byte of input, the estimator exits with status 1 and nothing is written.
\<close>

theorem fatal_run_loses_input_counterexample:
  "main [] [(Got 120, False), (End_of_input, False)] (initial_state Live) =
     Exit 1 \<lparr>rb = [120], received_signal = False, errno = 0, timer = (999999, 0),
       stdout = [], stderr = ''not enough input to estimate data rate'' @ newline,
       stdin_kind = Live, sigaction_error = None\<rparr> \<and>
   bytes_of [(Got 120, False), (End_of_input, False)] = [120]"
  by code_simp

text \<open>
  C2. The bound of \<^verbatim>\<open>reset_timer\<close> on a slow timer is \<^verbatim>\<open>new_interval > 1e6\<close>: on a live
  source the interval 952381 is resized by 1.05 to 1000000, which is returned and armed
  although it is above 999999.
\<close>

theorem reset_timer_admits_1000000:
  "reset_timer 952381 factor_slow (initial_state Live) =
     Return 1000000
       \<lparr>rb = [], received_signal = False, errno = 0, timer = (1000000, 1000000),
        stdout = [], stderr = [], stdin_kind = Live, sigaction_error = None\<rparr>"
  by code_simp

text \<open>
  C3. On a regular file \<^verbatim>\<open>reset_timer\<close> returns the interval it was given and leaves the
  state, and so the timer, as it was, for every interval and factor. A run of
  \<^verbatim>\<open>stream_data\<close> on a regular file never exits by a rate bound, keeps the timer at the
  interval it started with, and returns once the input has ended.
\<close>

theorem regular_source_keeps_interval:
  assumes "stdin_kind st = Regular"
  shows "reset_timer interval resize_factor st = Return interval st \<and>
         (case stream_data interval evs st of
            Return u st' \<Rightarrow> timer st' = (interval, interval)
          | Exit n st' \<Rightarrow> False
          | Abort st' \<Rightarrow> False
          | Blocked st' \<Rightarrow> timer st' = (interval, interval)) \<and>
         (\<exists>st'. stream_data interval (evs @ [(End_of_input, True), (End_of_input, t)]) st =
                   Return () st' \<and> timer st' = (interval, interval))"
proof -
  let ?st = "(set_timer interval interval st)\<lparr>errno := 0\<rparr>"
  have k: "stdin_kind ?st = Regular" and tm: "timer ?st = (interval, interval)"
    using assms by (simp_all add: set_timer_def)
  from stream_loop_regular [OF k, of evs interval 0]
    stream_loop_regular_completes [OF k, of evs t interval 0] tm
    reset_timer_regular [OF assms]
  show ?thesis by (auto simp: stream_data_def split: outcome.splits)
qed

theorem regular_source_keeps_interval_witness:
  "stdin_kind (initial_state Regular) = Regular \<and>
   reset_timer 1000 factor_fast (initial_state Regular) = Return 1000 (initial_state Regular) \<and>
   stream_data 1000 ([(Got 1, True)] @ [(End_of_input, True), (End_of_input, False)])
     (initial_state Regular) =
   Return () \<lparr>rb = [], received_signal = True, errno = 4, timer = (1000, 1000),
     stdout = [1], stderr = [], stdin_kind = Regular, sigaction_error = None\<rparr>"
proof -
  have h: "stdin_kind (initial_state Regular) = Regular" by (simp add: initial_state_def)
  have r: "stream_data 1000 ([(Got 1, True)] @ [(End_of_input, True), (End_of_input, False)])
     (initial_state Regular) =
     Return () \<lparr>rb = [], received_signal = True, errno = 4, timer = (1000, 1000),
       stdout = [1], stderr = [], stdin_kind = Regular, sigaction_error = None\<rparr>"
    by code_simp
  from regular_source_keeps_interval [OF h, of 1000 factor_fast "[(Got 1, True)]" False] h r
  show ?thesis by simp
qed

text \<open>
  C4. When the window has expired and the estimator has read between 1 and 999999 bytes
  in it, it returns the integer quotient of 1000000 by that number: 2 for 500000 bytes.
\<close>

theorem estimate_is_floor_of_million:
  assumes "is_eof eof" "window_expired st ev0 bs eof" "1 \<le> length bs" "length bs \<le> 999999"
  shows "estimate_input_rate (window_trace ev0 bs eof rest) st =
           Return (1000000 div int (length bs), rest)
             \<lparr>rb = rb st @ (case fst ev0 of Got b \<Rightarrow> [b] | Intr \<Rightarrow> [] | End_of_input \<Rightarrow> []) @
                     map fst bs,
              received_signal = False, errno = (if fst eof = Intr then EINTR else 0),
              timer = (999999, 0), stdout = stdout st, stderr = stderr st,
              stdin_kind = stdin_kind st, sigaction_error = sigaction_error st\<rparr> \<and>
         (length bs = 500000 \<longrightarrow>
            (\<exists>st'. estimate_input_rate (window_trace ev0 bs eof rest) st = Return (2, rest) st'))"
  using estimate_input_rate_returns [OF assms, of rest] by auto

theorem estimate_is_floor_of_million_witness:
  "is_eof (Intr, False) \<and>
   window_expired (initial_state Live) (Got 120, False) [(121, False), (122, True), (123, False)]
     (Intr, False) \<and>
   1 \<le> length [(121 :: byte, False), (122, True), (123, False)] \<and>
   length [(121 :: byte, False), (122, True), (123, False)] \<le> 999999 \<and>
   estimate_input_rate
     (window_trace (Got 120, False) [(121, False), (122, True), (123, False)] (Intr, False)
        [(Got 124, False)])
     (initial_state Live) =
   Return (333333, [(Got 124, False)])
     \<lparr>rb = [120, 121, 122, 123], received_signal = False, errno = 4, timer = (999999, 0),
      stdout = [], stderr = [], stdin_kind = Live, sigaction_error = None\<rparr> \<and>
   window_expired (initial_state Live) (Got 0, False) (replicate 500000 (0, False)) (Intr, True) \<and>
   length (replicate 500000 (0 :: byte, False)) = 500000 \<and>
   estimate_input_rate
     (window_trace (Got 0, False) (replicate 500000 (0, False)) (Intr, True) [])
     (initial_state Live) =
   Return (2, [])
     \<lparr>rb = 0 # replicate 500000 0, received_signal = False, errno = 4, timer = (999999, 0),
      stdout = [], stderr = [], stdin_kind = Live, sigaction_error = None\<rparr>"
proof -
  let ?bs = "[(121 :: byte, False), (122, True), (123, False)]"
  let ?cs = "replicate 500000 (0 :: byte, False)"
  have h1: "is_eof (Intr, False)" and g1: "is_eof (Intr, True)" by (simp_all add: is_eof_def)
  have h2: "window_expired (initial_state Live) (Got 120, False) ?bs (Intr, False)"
    by (simp add: window_expired_def)
  have g2: "window_expired (initial_state Live) (Got 0, False) ?cs (Intr, True)"
    by (simp add: window_expired_def)
  have h3: "1 \<le> length ?bs" and h4: "length ?bs \<le> 999999" by simp_all
  have g3: "1 \<le> length ?cs" and g4: "length ?cs \<le> 999999" by simp_all
  from estimate_is_floor_of_million [OF h1 h2 h3 h4, of "[(Got 124, False)]"]
    estimate_is_floor_of_million [OF g1 g2 g3 g4, of "[]"] h1 h2 g2
  show ?thesis by (simp add: initial_state_def EINTR_def)
qed

text \<open>
  C5 (as amended). On a trace with fewer than \<open>2 ^ 64\<close> bytes in the window the estimator
  exits with status 1 and the message "not enough input to estimate data rate" exactly
  when the window has not expired or no byte was read in it; it exits with status 1 and
  the message "input data rate is too high" exactly when the window has expired and more
  than 999999 bytes were read in it; and it returns an interval exactly in the remaining
  case.
\<close>

theorem estimation_failures:
  assumes "is_eof eof" "length bs < 2 ^ 64"
  shows "((\<exists>st'. estimate_input_rate (window_trace ev0 bs eof rest) st = Exit 1 st' \<and>
                 stderr st' = stderr st @ ''not enough input to estimate data rate'' @ newline) \<longleftrightarrow>
            \<not> window_expired st ev0 bs eof \<or> length bs < 1) \<and>
         ((\<exists>st'. estimate_input_rate (window_trace ev0 bs eof rest) st = Exit 1 st' \<and>
                 stderr st' = stderr st @ ''input data rate is too high'' @ newline) \<longleftrightarrow>
            window_expired st ev0 bs eof \<and> 999999 < length bs) \<and>
         ((\<exists>interval st'. estimate_input_rate (window_trace ev0 bs eof rest) st =
                 Return (interval, rest) st') \<longleftrightarrow>
            window_expired st ev0 bs eof \<and> 1 \<le> length bs \<and> length bs \<le> 999999)"
proof -
  have ne: "''not enough input to estimate data rate'' @ newline \<noteq>
            ''input data rate is too high'' @ newline"
    by (simp add: newline_def)
  from estimate_input_rate_window [OF assms, of st ev0 rest]
  obtain st' where
    d1: "\<not> window_expired st ev0 bs eof \<or> length bs < 1 \<longrightarrow>
           estimate_input_rate (window_trace ev0 bs eof rest) st = Exit 1 st' \<and>
           stderr st' = stderr st @ ''not enough input to estimate data rate'' @ newline" and
    d2: "window_expired st ev0 bs eof \<and> 999999 < length bs \<longrightarrow>
           estimate_input_rate (window_trace ev0 bs eof rest) st = Exit 1 st' \<and>
           stderr st' = stderr st @ ''input data rate is too high'' @ newline" and
    d3: "window_expired st ev0 bs eof \<and> 1 \<le> length bs \<and> length bs \<le> 999999 \<longrightarrow>
           estimate_input_rate (window_trace ev0 bs eof rest) st =
             Return (ll_of_fp (double_div 1000000 (double_of_size_t (of_nat (length bs)))), rest)
               st'"
    by blast
  consider (a) "\<not> window_expired st ev0 bs eof \<or> length bs < 1"
    | (b) "window_expired st ev0 bs eof" "999999 < length bs"
    | (c) "window_expired st ev0 bs eof" "1 \<le> length bs" "length bs \<le> 999999"
    by linarith
  then show ?thesis
  proof cases
    case a
    with d1 have "estimate_input_rate (window_trace ev0 bs eof rest) st = Exit 1 st'"
      "stderr st' = stderr st @ ''not enough input to estimate data rate'' @ newline" by simp_all
    with a ne show ?thesis by auto
  next
    case b
    with d2 have "estimate_input_rate (window_trace ev0 bs eof rest) st = Exit 1 st'"
      "stderr st' = stderr st @ ''input data rate is too high'' @ newline" by simp_all
    with b ne show ?thesis by auto
  next
    case c
    with d3 have "estimate_input_rate (window_trace ev0 bs eof rest) st =
               Return (ll_of_fp (double_div 1000000 (double_of_size_t (of_nat (length bs)))), rest)
                 st'" by simp
    with c show ?thesis by auto
  qed
qed

theorem estimation_failures_witness:
  "is_eof (End_of_input, False) \<and> length [(121 :: byte, False)] < 2 ^ 64 \<and>
   estimate_input_rate (window_trace (Got 120, False) [(121, False)] (End_of_input, False) [])
     (initial_state Live) =
   Exit 1 \<lparr>rb = [120, 121], received_signal = False, errno = 0, timer = (999999, 0),
     stdout = [], stderr = ''not enough input to estimate data rate'' @ newline,
     stdin_kind = Live, sigaction_error = None\<rparr> \<and>
   \<not> window_expired (initial_state Live) (Got 120, False) [(121, False)] (End_of_input, False)"
proof -
  have h1: "is_eof (End_of_input, False)" by (simp add: is_eof_def)
  have h2: "length [(121 :: byte, False)] < 2 ^ 64" by simp
  have e: "estimate_input_rate (window_trace (Got 120, False) [(121, False)] (End_of_input, False) [])
     (initial_state Live) =
     Exit 1 \<lparr>rb = [120, 121], received_signal = False, errno = 0, timer = (999999, 0),
       stdout = [], stderr = ''not enough input to estimate data rate'' @ newline,
       stdin_kind = Live, sigaction_error = None\<rparr>"
    by code_simp
  from estimation_failures [OF h1 h2, of "(Got 120, False)" "[]" "initial_state Live"] e h1
  show ?thesis by (simp add: window_expired_def initial_state_def)
qed

text \<open>
  Without the expiry of the window the second message is not printed: when a million
  bytes are read and the input ends before the handler has run, the estimator reports
  that there is not enough input.
\<close>

theorem too_many_bytes_before_expiry_counterexample:
  "exit_status (estimate_input_rate
     (window_trace (Got 0, False) (replicate 1000000 (0, False)) (End_of_input, False) [])
     (initial_state Live)) = Some 1 \<and>
   stderr (final_state (estimate_input_rate
     (window_trace (Got 0, False) (replicate 1000000 (0, False)) (End_of_input, False) [])
     (initial_state Live))) = ''not enough input to estimate data rate'' @ newline"
  by (rule short_window_with_many_bytes) simp_all




text \<open>
  C7 (as amended). On a live source \<^verbatim>\<open>reset_timer\<close> multiplies the interval by the factor in
  single precision and discards the fractional part of the product; it does not round to
  the nearest integer. The factors are the single-precision numbers nearest to 1.05 and
  0.95. The new interval is never below the exact product rounded down nor above it
  rounded up, and the timer is armed with it when it passes the two bounds. The factor
  for 1.05 is used for a signal serviced on an empty buffer and for a count below
  \<^verbatim>\<open>-DELAY_SIZE\<close>, the factor for 0.95 for a count above \<^verbatim>\<open>DELAY_SIZE\<close>.
\<close>

theorem rescale_truncates:
  assumes "stdin_kind st = Live" "0 \<le> interval" "interval < 2 ^ 24" "0 \<le> resize_factor"
  shows "reset_timer interval resize_factor st =
           (let new_interval = \<lfloor>to_float (of_int interval * resize_factor)\<rfloor>
            in if new_interval < 10
               then Exit 1 (fputs (''maximum output rate is 100KB/sec'' @ newline) st)
               else if new_interval > 1000000
               then Exit 1 (fputs (''minimum output rate is 1B/sec'' @ newline) st)
               else Return new_interval (st\<lparr>timer := (new_interval, new_interval)\<rparr>)) \<and>
         (of_int interval * resize_factor < 2 ^ 24 - 1 \<longrightarrow>
            \<lfloor>of_int interval * resize_factor\<rfloor> \<le> \<lfloor>to_float (of_int interval * resize_factor)\<rfloor> \<and>
            \<lfloor>to_float (of_int interval * resize_factor)\<rfloor> \<le> \<lceil>of_int interval * resize_factor\<rceil>) \<and>
         factor_slow = 4404019 / 4194304 \<and> factor_fast = 15938355 / 16777216 \<and>
         (received_signal st \<and> rb st = [] \<longrightarrow>
            service_signal interval bytes_buffered st =
              obind (reset_timer interval factor_slow st) (\<lambda>interval1 st2.
                Return (interval1, bytes_buffered - 1)
                  (st2\<lparr>received_signal := False, errno := 0\<rparr>))) \<and>
         (\<forall>b. DELAY_SIZE < b \<longrightarrow>
            adjust_rate interval b st =
              obind (reset_timer interval factor_fast st) (\<lambda>interval1 st1.
                Return (interval1, 0) st1)) \<and>
         (\<forall>b. b < - DELAY_SIZE \<longrightarrow>
            adjust_rate interval b st =
              obind (reset_timer interval factor_slow st) (\<lambda>interval1 st1.
                Return (interval1, 0) st1))"
proof -
  define x :: rat where "x = of_int interval * resize_factor"
  have x0: "0 \<le> x" using assms(2,4) by (simp add: x_def)
  have fl: "float_of_ll interval = of_int interval"
    using assms(2,3) by (simp add: float_of_ll_def to_float_def fp_round_int_exact)
  have nn: "0 \<le> to_float x" using x0 by (simp add: to_float_def fp_round_nonneg)
  have n: "ll_of_fp (float_mul (float_of_ll interval) resize_factor) = \<lfloor>to_float x\<rfloor>"
    using nn by (simp add: fl float_mul_def ll_of_fp_def x_def)
  have 1: "reset_timer interval resize_factor st =
           (let new_interval = \<lfloor>to_float x\<rfloor>
            in if new_interval < 10
               then Exit 1 (fputs (''maximum output rate is 100KB/sec'' @ newline) st)
               else if new_interval > 1000000
               then Exit 1 (fputs (''minimum output rate is 1B/sec'' @ newline) st)
               else Return new_interval (st\<lparr>timer := (new_interval, new_interval)\<rparr>))"
    unfolding reset_timer_live [OF assms(1)] n by (simp add: Let_def set_timer_def)
  have 2: "\<lfloor>x\<rfloor> \<le> \<lfloor>to_float x\<rfloor> \<and> \<lfloor>to_float x\<rfloor> \<le> \<lceil>x\<rceil>" if lt: "x < 2 ^ 24 - 1"
  proof (cases "x = 0")
    case True
    then show ?thesis by (simp add: to_float_def fp_round_def)
  next
    case False
    with x0 have pos: "0 < x" by simp
    have a: "\<lfloor>x\<rfloor> < 2 ^ 24" using lt by (simp add: floor_less_iff)
    have "of_int \<lfloor>x\<rfloor> * pow2 0 \<le> x" by (simp add: pow2_def)
    from fp_round_ge_repr [OF pos this a]
    have lo: "of_int \<lfloor>x\<rfloor> \<le> to_float x" by (simp add: pow2_def to_float_def)
    have b: "\<lceil>x\<rceil> < 2 ^ 24" using lt by (simp add: ceiling_less_iff)
    have "x \<le> of_int \<lceil>x\<rceil> * pow2 0" by (simp add: pow2_def)
    from fp_round_le_repr [OF pos this b]
    have hi: "to_float x \<le> of_int \<lceil>x\<rceil>" by (simp add: pow2_def to_float_def)
    from lo hi show ?thesis by (simp add: le_floor_iff floor_le_iff)
  qed
  have 3: "service_signal interval bytes_buffered st =
              obind (reset_timer interval factor_slow st) (\<lambda>interval1 st2.
                Return (interval1, bytes_buffered - 1)
                  (st2\<lparr>received_signal := False, errno := 0\<rparr>))"
    if "received_signal st \<and> rb st = []"
    using that by (simp add: service_signal_def rb_pop_def)
  from 1 2 3 factor_values adjust_rate_factors [of _ interval st]
  show ?thesis unfolding x_def by blast
qed

theorem rescale_truncates_witness:
  "stdin_kind ((initial_state Live)\<lparr>received_signal := True\<rparr>) = Live \<and>
   (0::int) \<le> 15 \<and> (15::int) < 2 ^ 24 \<and> 0 \<le> factor_slow \<and>
   reset_timer 15 factor_slow ((initial_state Live)\<lparr>received_signal := True\<rparr>) =
     Return 15
       \<lparr>rb = [], received_signal = True, errno = 0, timer = (15, 15),
        stdout = [], stderr = [], stdin_kind = Live, sigaction_error = None\<rparr> \<and>
   15 * factor_slow < 2 ^ 24 - 1 \<and>
   \<lfloor>15 * factor_slow\<rfloor> = 15 \<and> \<lceil>15 * factor_slow\<rceil> = 16 \<and>
   received_signal ((initial_state Live)\<lparr>received_signal := True\<rparr>) \<and>
   rb ((initial_state Live)\<lparr>received_signal := True\<rparr>) = [] \<and>
   service_signal 15 0 ((initial_state Live)\<lparr>received_signal := True\<rparr>) =
     Return (15, - 1)
       \<lparr>rb = [], received_signal = False, errno = 0, timer = (15, 15),
        stdout = [], stderr = [], stdin_kind = Live, sigaction_error = None\<rparr> \<and>
   DELAY_SIZE < 1025 \<and>
   adjust_rate 15 1025 ((initial_state Live)\<lparr>received_signal := True\<rparr>) =
     Return (14, 0)
       \<lparr>rb = [], received_signal = True, errno = 0, timer = (14, 14),
        stdout = [], stderr = [], stdin_kind = Live, sigaction_error = None\<rparr> \<and>
   - 1025 < - DELAY_SIZE \<and>
   adjust_rate 15 (- 1025) ((initial_state Live)\<lparr>received_signal := True\<rparr>) =
     Return (15, 0)
       \<lparr>rb = [], received_signal = True, errno = 0, timer = (15, 15),
        stdout = [], stderr = [], stdin_kind = Live, sigaction_error = None\<rparr>"
proof -
  let ?s = "(initial_state Live)\<lparr>received_signal := True\<rparr>"
  have h1: "stdin_kind ?s = Live" by (simp add: initial_state_def)
  have h2: "(0::int) \<le> 15" and h3: "(15::int) < 2 ^ 24" by simp_all
  have h4: "0 \<le> factor_slow" using factor_values by simp
  have h5: "received_signal ?s \<and> rb ?s = []" by (simp add: initial_state_def)
  have v: "\<lfloor>to_float (15 * factor_slow)\<rfloor> = 15" by code_simp
  have r: "15 * factor_slow < 2 ^ 24 - 1" "\<lfloor>15 * factor_slow\<rfloor> = 15" "\<lceil>15 * factor_slow\<rceil> = 16"
    by code_simp+
  have f: "reset_timer 15 factor_fast ?s = Return 14 (?s\<lparr>timer := (14, 14)\<rparr>)"
    by code_simp
  have d: "DELAY_SIZE < 1025" "- 1025 < - DELAY_SIZE" by (simp_all add: DELAY_SIZE_def)
  from rescale_truncates [OF h1 h2 h3 h4, of 0] h1 h4 h5 v r f d
  show ?thesis by (simp add: initial_state_def)
qed

text \<open>
  The interval 15 is resized by 1.05 to 15, where the product rounded to the nearest
  integer is 16, for the exact factor as for its single-precision value. A count above
  \<^verbatim>\<open>DELAY_SIZE\<close> resizes the interval 1000 to 950, by 0.95 and not by 1.05.
\<close>

theorem rescale_is_not_rounding_counterexample:
  "reset_timer 15 factor_slow (initial_state Live) =
     Return 15
       \<lparr>rb = [], received_signal = False, errno = 0, timer = (15, 15),
        stdout = [], stderr = [], stdin_kind = Live, sigaction_error = None\<rparr> \<and>
   round (of_int 15 * (105 / 100 :: rat)) = 16 \<and> round (of_int 15 * factor_slow) = 16 \<and>
   adjust_rate 1000 1025 (initial_state Live) =
     Return (950, 0)
       \<lparr>rb = [], received_signal = False, errno = 0, timer = (950, 950),
        stdout = [], stderr = [], stdin_kind = Live, sigaction_error = None\<rparr>"
  by code_simp

text \<open>
  C8 (as amended). After an iteration of the loop the count is zero exactly when it had
  passed \<^verbatim>\<open>DELAY_SIZE\<close> or \<^verbatim>\<open>-DELAY_SIZE\<close>, which is when the last two blocks resize the
  timer; otherwise it is the old count, less one for a serviced signal, plus one for a
  byte read. The resize on an empty buffer leaves the count at the old count less one.
\<close>

theorem drift_counter_after_iteration:
  "(\<forall>interval' bytes_buffered' st'.
      stream_body c interval bytes_buffered st = Return (interval', bytes_buffered') st' \<longrightarrow>
      bytes_buffered' =
        (let n = bytes_buffered - (if received_signal st then 1 else 0)
                   + (if c = None then 0 else 1)
         in if n > DELAY_SIZE \<or> n < - DELAY_SIZE then 0 else n)) \<and>
   (received_signal st \<and> rb st = [] \<longrightarrow>
      service_signal interval bytes_buffered st =
        obind (reset_timer interval factor_slow st) (\<lambda>interval1 st2.
          Return (interval1, bytes_buffered - 1) (st2\<lparr>received_signal := False, errno := 0\<rparr>)))"
  using stream_body_count [of c interval bytes_buffered st]
  by (auto simp: service_signal_def rb_pop_def)

theorem drift_counter_after_iteration_witness:
  "stream_body (Some 7) 1000 1024 (initial_state Live) =
     Return (950, 0)
       \<lparr>rb = [7], received_signal = False, errno = 0, timer = (950, 950),
        stdout = [], stderr = [], stdin_kind = Live, sigaction_error = None\<rparr> \<and>
   received_signal ((initial_state Live)\<lparr>received_signal := True\<rparr>) \<and>
   rb ((initial_state Live)\<lparr>received_signal := True\<rparr>) = [] \<and>
   service_signal 1000 0 ((initial_state Live)\<lparr>received_signal := True\<rparr>) =
     Return (1050, - 1)
       \<lparr>rb = [], received_signal = False, errno = 0, timer = (1050, 1050),
        stdout = [], stderr = [], stdin_kind = Live, sigaction_error = None\<rparr>"
proof -
  let ?s = "(initial_state Live)\<lparr>received_signal := True\<rparr>"
  have h: "received_signal ?s \<and> rb ?s = []" by (simp add: initial_state_def)
  have r: "reset_timer 1000 factor_slow ?s = Return 1050 (?s\<lparr>timer := (1050, 1050)\<rparr>)"
    by code_simp
  have b: "stream_body (Some 7) 1000 1024 (initial_state Live) =
     Return (950, 0)
       \<lparr>rb = [7], received_signal = False, errno = 0, timer = (950, 950),
        stdout = [], stderr = [], stdin_kind = Live, sigaction_error = None\<rparr>"
    by code_simp
  from drift_counter_after_iteration [of None 1000 0 ?s] h r b
  show ?thesis by (simp add: initial_state_def)
qed

text \<open>
  A signal serviced on an empty buffer, with no byte read: the interval is resized from
  1000 to 1050 and the count goes from 0 to -1, not to 0.
\<close>

theorem underrun_keeps_drift_counterexample:
  "stream_body None 1000 0 ((initial_state Live)\<lparr>received_signal := True\<rparr>) =
     Return (1050, - 1)
       \<lparr>rb = [], received_signal = False, errno = 0, timer = (1050, 1050),
        stdout = [], stderr = [], stdin_kind = Live, sigaction_error = None\<rparr>"
  by code_simp

text \<open>
  C9. For the argument \<^verbatim>\<open>0\<close> the parser prints nothing and returns 0: the test is
  \<^verbatim>\<open>rv < 0\<close>, although the message asks for an integer greater than 0.
\<close>

theorem parse_zero_prints_nothing:
  "parse_argument_for_interval ''0'' st = (0, st)"
  by (simp add: parse_argument_for_interval_def strtoll_def convert_digits_def is_digit_def
      digit_value_def isspace_def LLONG_MAX_def LLONG_MIN_def)

text \<open>
  C10. The interval that the estimator returns is passed to \<^verbatim>\<open>stream_data\<close> as it is:
  it lies between 1 and 1000000, the loop starts with it and the timer is armed with it.
  For 500000 bytes in the window the program waits for input with the timer at 2
  microseconds, below 10, and has not exited.
\<close>

theorem estimated_interval_is_unchecked:
  assumes "is_eof eof" "window_expired st ev0 bs eof" "1 \<le> length bs" "length bs \<le> 999999"
    "stdin_kind st = Live" "sigaction_error st = None"
  shows "main [] (window_trace ev0 bs eof rest) st =
           obind
             (stream_loop rest (1000000 div int (length bs)) 0
                \<lparr>rb = (case fst ev0 of Got b \<Rightarrow> [b] | Intr \<Rightarrow> [] | End_of_input \<Rightarrow> []) @
                        map fst bs,
                 received_signal = False, errno = 0,
                 timer = (1000000 div int (length bs), 1000000 div int (length bs)),
                 stdout = stdout st, stderr = stderr st, stdin_kind = Live,
                 sigaction_error = None\<rparr>)
             (\<lambda>_ st4. Exit 0 st4) \<and>
         1 \<le> 1000000 div int (length bs) \<and> 1000000 div int (length bs) \<le> 1000000 \<and>
         (length bs = 500000 \<longrightarrow>
            main [] (window_trace ev0 bs eof []) st =
              Blocked
                \<lparr>rb = (case fst ev0 of Got b \<Rightarrow> [b] | Intr \<Rightarrow> [] | End_of_input \<Rightarrow> []) @
                        map fst bs,
                 received_signal = False, errno = 0, timer = (2, 2),
                 stdout = stdout st, stderr = stderr st, stdin_kind = Live,
                 sigaction_error = None\<rparr>)"
proof -
  let ?st1 = "rb_create st"
  have w: "window_expired ?st1 ev0 bs eof"
    using assms(2) by (simp add: window_expired_def rb_create_def)
  have m: "main [] (window_trace ev0 bs eof r) st =
           obind
             (stream_loop r (1000000 div int (length bs)) 0
                \<lparr>rb = (case fst ev0 of Got b \<Rightarrow> [b] | Intr \<Rightarrow> [] | End_of_input \<Rightarrow> []) @
                        map fst bs,
                 received_signal = False, errno = 0,
                 timer = (1000000 div int (length bs), 1000000 div int (length bs)),
                 stdout = stdout st, stderr = stderr st, stdin_kind = Live,
                 sigaction_error = None\<rparr>)
             (\<lambda>_ st4. Exit 0 st4)" for r
    using estimate_input_rate_returns [OF assms(1) w assms(3,4), of r] assms(5,6)
    by (simp add: main_def set_handler_def is_regular_def rb_create_def stream_data_def
        set_timer_def)
  have q: "1 \<le> 1000000 div int (length bs) \<and> 1000000 div int (length bs) \<le> 1000000"
    using assms(3,4) by (intro quotient_bounds) simp_all
  from m [of rest] m [of "[]"] q show ?thesis by simp
qed

theorem estimated_interval_is_unchecked_witness:
  "is_eof (Intr, True) \<and>
   window_expired (initial_state Live) (Got 0, False) (replicate 500000 (0, False)) (Intr, True) \<and>
   1 \<le> length (replicate 500000 (0 :: byte, False)) \<and>
   length (replicate 500000 (0 :: byte, False)) \<le> 999999 \<and>
   stdin_kind (initial_state Live) = Live \<and> sigaction_error (initial_state Live) = None \<and>
   main [] (window_trace (Got 0, False) (replicate 500000 (0, False)) (Intr, True) [])
     (initial_state Live) =
   Blocked \<lparr>rb = 0 # replicate 500000 0, received_signal = False, errno = 0, timer = (2, 2),
     stdout = [], stderr = [], stdin_kind = Live, sigaction_error = None\<rparr>"
proof -
  let ?bs = "replicate 500000 (0 :: byte, False)"
  have h1: "is_eof (Intr, True)" by (simp add: is_eof_def)
  have h2: "window_expired (initial_state Live) (Got 0, False) ?bs (Intr, True)"
    by (simp add: window_expired_def)
  have h3: "1 \<le> length ?bs" and h4: "length ?bs \<le> 999999" by simp_all
  have h5: "stdin_kind (initial_state Live) = Live"
    and h6: "sigaction_error (initial_state Live) = None" by (simp_all add: initial_state_def)
  from estimated_interval_is_unchecked [OF h1 h2 h3 h4 h5 h6, of "[]"] h1 h2 h5 h6
  show ?thesis by (simp add: initial_state_def)
qed

section \<open>Further properties\<close>

text \<open>
  X1. When the input has ended, the last loop of \<^verbatim>\<open>stream_data\<close> writes exactly the bytes
  still in the buffer, in their order, and leaves the buffer empty.
\<close>

theorem drain_writes_the_buffer:
  "stdout (drain st) = stdout st @ rb st \<and> rb (drain st) = []"
  using drain_result [of st] by simp

theorem drain_writes_the_buffer_witness:
  "stdout (drain ((initial_state Live)\<lparr>rb := [1, 2, 3], stdout := [0]\<rparr>)) = [0, 1, 2, 3] \<and>
   rb (drain ((initial_state Live)\<lparr>rb := [1, 2, 3], stdout := [0]\<rparr>)) = []"
  using drain_writes_the_buffer [of "(initial_state Live)\<lparr>rb := [1, 2, 3], stdout := [0]\<rparr>"]
  by (simp add: initial_state_def)

text \<open>
  X2. On a live source, resizing the interval 10 by 0.95 and resizing the interval 999999
  by 1.05 both end the process with status 1 and the message of the bound, and write
  nothing to the standard output.
\<close>

theorem bounds_are_fatal:
  "reset_timer 10 factor_fast (initial_state Live) =
     Exit 1 \<lparr>rb = [], received_signal = False, errno = 0, timer = (0, 0), stdout = [],
       stderr = ''maximum output rate is 100KB/sec'' @ newline, stdin_kind = Live,
       sigaction_error = None\<rparr> \<and>
   reset_timer 999999 factor_slow (initial_state Live) =
     Exit 1 \<lparr>rb = [], received_signal = False, errno = 0, timer = (0, 0), stdout = [],
       stderr = ''minimum output rate is 1B/sec'' @ newline, stdin_kind = Live,
       sigaction_error = None\<rparr>"
  by code_simp

text \<open>
  X3. After every iteration of the loop of \<^verbatim>\<open>stream_data\<close> the count of buffered bytes
  lies between \<^verbatim>\<open>-DELAY_SIZE\<close> and \<^verbatim>\<open>DELAY_SIZE\<close>, so the \<^verbatim>\<open>int\<close> never overflows.
\<close>

theorem drift_counter_is_bounded:
  assumes "stream_body c interval bytes_buffered st = Return (interval', bytes_buffered') st'"
  shows "- DELAY_SIZE \<le> bytes_buffered' \<and> bytes_buffered' \<le> DELAY_SIZE"
  using stream_body_count [OF assms] by (auto simp: Let_def DELAY_SIZE_def split: if_splits)

theorem drift_counter_is_bounded_witness:
  "stream_body (Some 7) 1000 (- 1024)
     ((initial_state Live)\<lparr>received_signal := True, rb := [5]\<rparr>) =
     Return (1000, - 1024)
       \<lparr>rb = [7], received_signal = False, errno = 0, timer = (0, 0), stdout = [5],
        stderr = [], stdin_kind = Live, sigaction_error = None\<rparr> \<and>
   - DELAY_SIZE \<le> (- 1024 :: int) \<and> (- 1024 :: int) \<le> DELAY_SIZE"
proof -
  have b: "stream_body (Some 7) 1000 (- 1024)
     ((initial_state Live)\<lparr>received_signal := True, rb := [5]\<rparr>) =
     Return (1000, - 1024)
       \<lparr>rb = [7], received_signal = False, errno = 0, timer = (0, 0), stdout = [5],
        stderr = [], stdin_kind = Live, sigaction_error = None\<rparr>"
    by code_simp
  from drift_counter_is_bounded [OF b] b show ?thesis by simp
qed

text \<open>
  X4. For an interval from 1 to 999999 \<^verbatim>\<open>read_one_second\<close> reads ahead the integer
  quotient of 1000000 by the interval, plus one, bytes, or fewer when \<^verbatim>\<open>getchar\<close> returns
  \<^verbatim>\<open>EOF\<close> before; for any other interval one of its assertions fails.
\<close>

theorem read_one_second_count:
  "read_one_second interval evs st =
     (if 1 \<le> interval \<and> interval \<le> 999999
      then read_loop (1000000 div interval + 1) evs st
      else Abort st)"
proof (cases "1 \<le> interval \<and> interval \<le> 999999")
  case True
  then have "interval > 0" "double_of_ll interval < 1000000"
    by (simp_all add: double_of_ll_lt_million)
  with True read_ahead_count [of interval] show ?thesis
    by (simp add: read_one_second_def Let_def)
next
  case False
  then have "\<not> interval > 0 \<or> \<not> double_of_ll interval < 1000000"
    by (auto simp: double_of_ll_lt_million)
  with False show ?thesis by (auto simp: read_one_second_def)
qed

theorem read_one_second_count_witness:
  "read_one_second 400000 [(Got 1, False), (Got 2, False), (Got 3, False), (Got 4, False)]
     (initial_state Regular) =
   Return [(Got 4, False)]
     \<lparr>rb = [1, 2, 3], received_signal = False, errno = 0, timer = (0, 0), stdout = [],
      stderr = [], stdin_kind = Regular, sigaction_error = None\<rparr>"
proof -
  have "read_loop (1000000 div 400000 + 1)
      [(Got 1, False), (Got 2, False), (Got 3, False), (Got 4, False)] (initial_state Regular) =
    Return [(Got 4, False)]
     \<lparr>rb = [1, 2, 3], received_signal = False, errno = 0, timer = (0, 0), stdout = [],
      stderr = [], stdin_kind = Regular, sigaction_error = None\<rparr>"
    by code_simp
  with read_one_second_count [of 400000
      "[(Got 1, False), (Got 2, False), (Got 3, False), (Got 4, False)]" "initial_state Regular"]
  show ?thesis by simp
qed

text \<open>
  X5. With one byte in the window of the estimator the interval is 1000000, and
  \<^verbatim>\<open>stream_data\<close> asks for a timer of 1000000 microseconds, which \<^verbatim>\<open>setitimer\<close> does not
  accept.
\<close>

theorem one_byte_window_asks_for_1000000:
  "timer (final_state (main []
     [(Got 97, False), (Got 98, True), (Intr, True), (End_of_input, False),
      (End_of_input, False)] (initial_state Live))) = (1000000, 1000000) \<and>
   \<not> setitimer_accepts (1000000, 1000000)"
  by code_simp

end
